theory Spec2Isabelle
  imports Main "HOL-Library.Word" "HOL-Library.Sublist"
begin

section \<open>Python values used by djcastor\<close>

text \<open>
  Strings are lists of characters, byte strings are lists of 8-bit words, and Python's
  integers are unbounded, so \<open>width\<close> and \<open>depth\<close> are of type \<open>int\<close>.
\<close>

type_synonym byte = "8 word"

subsection \<open>Slicing\<close>

text \<open>
  \<open>s[a:b]\<close> on a sequence of length \<open>n\<close>: a negative bound counts from the end, and
  both bounds are clamped into \<open>0..n\<close>. Slicing never raises.
\<close>

definition py_slice_index :: "nat \<Rightarrow> int \<Rightarrow> nat" where
  "py_slice_index n i = (if i < 0 then nat (int n + i) else min (nat i) n)"

definition py_slice :: "'a list \<Rightarrow> int \<Rightarrow> int \<Rightarrow> 'a list" where
  "py_slice s a b =
     (let lo = py_slice_index (length s) a; hi = py_slice_index (length s) b
      in take (hi - lo) (drop lo s))"

definition py_slice_from :: "'a list \<Rightarrow> int \<Rightarrow> 'a list" where
  "py_slice_from s a = drop (py_slice_index (length s) a) s"

section \<open>utils.shard\<close>

text \<open>
  The generator yields one slice for each \<open>i\<close> of \<open>range(depth)\<close> and then one last
  element; the list below is what \<open>list(shard(...))\<close> returns. \<open>range(depth)\<close> is
  \<open>[0..depth - 1]\<close>, empty when \<open>depth \<le> 0\<close>.
\<close>

definition shard :: "string \<Rightarrow> int \<Rightarrow> int \<Rightarrow> bool \<Rightarrow> string list" where
  "shard string width depth rest_only =
     map (\<lambda>i. py_slice string (width * i) (width * (i + 1))) [0..depth - 1]
     @ [if rest_only then py_slice_from string (width * depth) else string]"

text \<open>
  The specification's wording for a segment: the characters of the string at the
  positions \<open>lo \<le> k < hi\<close>, as far as the string has them.
\<close>

definition substring :: "'a list \<Rightarrow> int \<Rightarrow> int \<Rightarrow> 'a list" where
  "substring s lo hi =
     map (\<lambda>k. s ! nat k) (filter (\<lambda>k. 0 \<le> k \<and> k < int (length s)) [lo..hi - 1])"

section \<open>Slices and substrings\<close>

lemma upto_map_int:
  assumes "0 \<le> lo"
  shows "[lo..hi - 1] = map int [nat lo..<nat hi]"
proof (rule nth_equalityI)
  from assms show "length [lo..hi - 1] = length (map int [nat lo..<nat hi])"
    by simp
next
  fix i
  assume "i < length [lo..hi - 1]"
  with assms show "[lo..hi - 1] ! i = map int [nat lo..<nat hi] ! i"
    by simp
qed

lemma filter_less_upt: "filter (\<lambda>k. k < n) [lo..<hi] = [lo..<min hi n]"
proof (induction hi)
  case 0
  then show ?case by simp
next
  case (Suc hi)
  then show ?case by (cases "hi < n") (auto simp: min_def)
qed

lemma substring_take_drop:
  assumes "0 \<le> lo"
  shows "substring s lo hi = take (nat hi - nat lo) (drop (nat lo) s)"
proof -
  have "map (\<lambda>k. s ! k) [nat lo..<min (nat hi) (length s)]
        = take (nat hi - nat lo) (drop (nat lo) s)"
  proof (rule nth_equalityI)
    show "length (map (\<lambda>k. s ! k) [nat lo..<min (nat hi) (length s)])
          = length (take (nat hi - nat lo) (drop (nat lo) s))"
      by (simp add: min_def) arith
  next
    fix i
    assume "i < length (map (\<lambda>k. s ! k) [nat lo..<min (nat hi) (length s)])"
    then show "map (\<lambda>k. s ! k) [nat lo..<min (nat hi) (length s)] ! i
               = take (nat hi - nat lo) (drop (nat lo) s) ! i"
      by (simp add: min_def split: if_splits)
  qed
  then show ?thesis
    by (simp add: substring_def upto_map_int [OF assms] filter_map comp_def filter_less_upt)
qed

lemma py_slice_nonneg:
  assumes "0 \<le> a" "0 \<le> b"
  shows "py_slice s a b = substring s a b"
proof -
  have "take (min (nat b) (length s) - min (nat a) (length s)) (drop (min (nat a) (length s)) s)
        = take (nat b - nat a) (drop (nat a) s)"
    by (rule nth_equalityI) (auto simp: min_def)
  with assms show ?thesis
    by (simp add: py_slice_def py_slice_index_def substring_take_drop Let_def)
qed

lemma py_slice_from_nonneg:
  assumes "0 \<le> a"
  shows "py_slice_from s a = substring s a (int (length s))"
  using assms
  by (simp add: py_slice_from_def py_slice_index_def substring_take_drop min_def)

lemma length_shard: "length (shard s w d r) = nat d + 1"
  by (simp add: shard_def)

lemma shard_nth_dir:
  assumes "i < nat d"
  shows "shard s w d r ! i = py_slice s (w * int i) (w * (int i + 1))"
proof -
  from assms have "i < length [0..d - 1]" by simp
  moreover from assms have "[0..d - 1] ! i = int i" by simp
  ultimately show ?thesis by (simp add: shard_def nth_append)
qed

lemma shard_nth_last:
  "shard s w d r ! nat d = (if r then py_slice_from s (w * d) else s)"
  by (simp add: shard_def nth_append)

lemma concat_dir_segments:
  "concat (map (\<lambda>i. take w (drop (w * i) s)) [0..<d]) = take (w * d) s"
proof (induction d)
  case 0
  then show ?case by simp
next
  case (Suc d)
  have "take (w * d) s @ take w (drop (w * d) s) = take (w * d + w) s"
    by (simp add: take_add)
  with Suc show ?case by (simp add: add.commute)
qed


section \<open>Claims about shard\<close>

text \<open>
  C2 (as amended). For every string and every width and depth that are not negative,
  shard yields exactly depth + 1 segments: segment \<open>i\<close>, for \<open>0 \<le> i < depth\<close>, is the
  substring at the character positions from \<open>width * i\<close> up to, and not including,
  \<open>width * (i + 1)\<close>; the last segment is the whole string when \<open>rest_only\<close> is false
  and the substring from position \<open>width * depth\<close> to the end when it is true. On the
  digest of the docstring, width 2 and depth 2 give the two directory names and the
  whole digest.
\<close>

theorem shard_segments:
  assumes "0 \<le> width" and "0 \<le> depth"
  shows "int (length (shard s width depth rest_only)) = depth + 1
    \<and> (\<forall>i. 0 \<le> i \<and> i < depth \<longrightarrow>
          shard s width depth rest_only ! nat i = substring s (width * i) (width * (i + 1)))
    \<and> shard s width depth rest_only ! nat depth
        = (if rest_only then substring s (width * depth) (int (length s)) else s)
    \<and> shard ''1f09d30c707d53f3d16c530dd73d70a6ce7596a9'' 2 2 False
        = [''1f'', ''09'', ''1f09d30c707d53f3d16c530dd73d70a6ce7596a9'']"
proof (intro conjI allI impI)
  from assms show "int (length (shard s width depth rest_only)) = depth + 1"
    by (simp add: length_shard)
next
  fix i :: int
  assume i: "0 \<le> i \<and> i < depth"
  then have "nat i < nat depth" by simp
  then have "shard s width depth rest_only ! nat i
             = py_slice s (width * int (nat i)) (width * (int (nat i) + 1))"
    by (rule shard_nth_dir)
  also from i assms have "\<dots> = substring s (width * i) (width * (i + 1))"
    by (simp add: py_slice_nonneg)
  finally show "shard s width depth rest_only ! nat i
                = substring s (width * i) (width * (i + 1))" .
next
  from assms have "0 \<le> width * depth" by simp
  then show "shard s width depth rest_only ! nat depth
             = (if rest_only then substring s (width * depth) (int (length s)) else s)"
    by (simp add: shard_nth_last py_slice_from_nonneg)
next
  show "shard ''1f09d30c707d53f3d16c530dd73d70a6ce7596a9'' 2 2 False
        = [''1f'', ''09'', ''1f09d30c707d53f3d16c530dd73d70a6ce7596a9'']"
    by code_simp
qed

text \<open>
  The amended statement at a string of six characters with \<open>rest_only\<close> true: three
  segments, the directory names at the positions 0-1 and 2-3, and the remainder from
  position 4.
\<close>

theorem shard_segments_witness:
  "(0::int) \<le> 2
   \<and> int (length (shard ''1f09d3'' 2 2 True)) = 3
   \<and> shard ''1f09d3'' 2 2 True ! nat 1 = substring ''1f09d3'' 2 4
   \<and> shard ''1f09d3'' 2 2 True ! nat 2 = substring ''1f09d3'' 4 6"
proof -
  have h: "(0::int) \<le> 2" by simp
  note t = shard_segments [OF h h, of "''1f09d3''" True]
  from t have a: "int (length (shard ''1f09d3'' 2 2 True)) = 2 + 1"
    by (rule conjunct1)
  note b = t [THEN conjunct2, THEN conjunct1, rule_format, of 1]
  have c: "shard ''1f09d3'' 2 2 True ! nat 1 = substring ''1f09d3'' (2 * 1) (2 * (1 + 1))"
    by (rule b) simp
  from t have d: "shard ''1f09d3'' 2 2 True ! nat 2
      = (if True then substring ''1f09d3'' (2 * 2) (int (length ''1f09d3'')) else ''1f09d3'')"
    by (rule conjunct2 [THEN conjunct2, THEN conjunct1])
  from a c d show ?thesis by simp
qed

text \<open>
  C2 as stated, for every width and depth, fails on negative numbers. With depth -1,
  \<open>range(depth)\<close> is empty and the generator still yields the last element: one segment,
  not depth + 1 = 0. With width -1, segment 0 is \<open>string[0:-1]\<close>, which Python reads from
  the end of the string: all but the last character, and not the (empty) range of
  positions from 0 up to -1.
\<close>

theorem shard_negative_counterexample:
  "shard ''abc'' 2 (- 1) False = [''abc'']
   \<and> int (length (shard ''abc'' 2 (- 1) False)) \<noteq> - 1 + 1
   \<and> shard ''abcd'' (- 1) 2 False ! nat 0 = ''abc''
   \<and> shard ''abcd'' (- 1) 2 False ! nat 0 \<noteq> substring ''abcd'' (- 1 * 0) (- 1 * (0 + 1))"
  by code_simp

text \<open>
  C9. shard has a result for every width and depth (slicing never raises): a list of
  \<open>max depth 0\<close> directory segments and one last segment. When \<open>width * depth\<close> exceeds
  the length of the string, each directory segment is what the string has at its
  positions: at most \<open>width\<close> characters, and none once \<open>width * i\<close> is at or beyond the
  end. With depth 0 the result is the last segment alone, which is the whole string
  under either value of \<open>rest_only\<close>.
\<close>

theorem shard_total_edge_cases:
  "length (shard s width depth rest_only) = nat depth + 1
   \<and> (int (length s) < width * depth \<longrightarrow>
        (\<forall>i < nat depth.
           shard s width depth rest_only ! i = take (nat width) (drop (nat width * i) s)
           \<and> length (shard s width depth rest_only ! i) \<le> nat width
           \<and> (length s \<le> nat width * i \<longrightarrow> shard s width depth rest_only ! i = [])))
   \<and> shard s width 0 rest_only = [s]"
proof (intro conjI allI impI)
  show "length (shard s width depth rest_only) = nat depth + 1"
    by (rule length_shard)
next
  fix i
  assume big: "int (length s) < width * depth" and i: "i < nat depth"
  from i have "0 < depth" by simp
  with big have w: "0 \<le> width"
    by (metis int_ops(1) leI mult_less_0_iff of_nat_less_0_iff order_less_trans order_less_imp_le)
  have "shard s width depth rest_only ! i = py_slice s (width * int i) (width * (int i + 1))"
    using i by (rule shard_nth_dir)
  also from w have "\<dots> = substring s (width * int i) (width * (int i + 1))"
    by (simp add: py_slice_nonneg)
  also from w have "\<dots> = take (nat width) (drop (nat width * i) s)"
    by (simp add: substring_take_drop nat_mult_distrib nat_add_distrib distrib_left)
  finally show seg: "shard s width depth rest_only ! i = take (nat width) (drop (nat width * i) s)" .
  from seg show "length (shard s width depth rest_only ! i) \<le> nat width"
    by simp
  assume "length s \<le> nat width * i"
  with seg show "shard s width depth rest_only ! i = []"
    by simp
next
  show "shard s width 0 rest_only = [s]"
    by (simp add: shard_def py_slice_from_def py_slice_index_def)
qed

text \<open>
  C9 at a string of three characters with width 2 and depth 3: the directory segments
  are \<open>ab\<close>, \<open>c\<close> and the empty string.
\<close>

theorem shard_total_edge_cases_witness:
  "int (length ''abc'') < 2 * 3
   \<and> shard ''abc'' 2 3 False = [''ab'', ''c'', '''', ''abc'']
   \<and> length (shard ''abc'' 2 3 False ! 1) \<le> nat 2
   \<and> shard ''abc'' 2 3 False ! 2 = []
   \<and> shard ''abc'' 2 0 True = [''abc'']"
proof -
  note t = shard_total_edge_cases [of "''abc''" 2 3 False]
  have big: "int (length ''abc'') < 2 * 3" by simp
  from t big have "\<forall>i < nat 3. length (shard ''abc'' 2 3 False ! i) \<le> nat 2
      \<and> (length ''abc'' \<le> nat 2 * i \<longrightarrow> shard ''abc'' 2 3 False ! i = [])"
    by blast
  then have "length (shard ''abc'' 2 3 False ! 1) \<le> nat 2"
    and "length ''abc'' \<le> nat 2 * 2 \<longrightarrow> shard ''abc'' 2 3 False ! 2 = []"
    by simp_all
  moreover have "shard ''abc'' 2 3 False = [''ab'', ''c'', '''', ''abc'']"
    by code_simp
  moreover have "shard ''abc'' 2 0 True = [''abc'']"
    by (simp add: shard_total_edge_cases [of "''abc''" 2 0 True])
  ultimately show ?thesis by simp
qed

text \<open>
  C10. For every string and all widths and depths that are not negative, shard with
  \<open>rest_only\<close> true yields depth + 1 segments, and the segments concatenated in order
  are the string.
\<close>

theorem shard_rest_only_concat:
  assumes "0 \<le> width" and "0 \<le> depth"
  shows "int (length (shard s width depth True)) = depth + 1
    \<and> concat (shard s width depth True) = s"
proof
  from assms(2) show "int (length (shard s width depth True)) = depth + 1"
    by (simp add: length_shard)
next
  from assms have up: "[0..depth - 1] = map int [nat 0..<nat depth]"
    by (simp add: upto_map_int)
  have seg: "py_slice s (width * int i) (width * (int i + 1))
             = take (nat width) (drop (nat width * i) s)" for i
    using assms(1)
    by (simp add: py_slice_nonneg substring_take_drop nat_mult_distrib nat_add_distrib
        distrib_left)
  from assms have rest: "py_slice_from s (width * depth) = drop (nat width * nat depth) s"
    by (simp add: py_slice_from_nonneg substring_take_drop nat_mult_distrib)
  have "concat (shard s width depth True)
        = concat (map (\<lambda>i. take (nat width) (drop (nat width * i) s)) [0..<nat depth])
          @ drop (nat width * nat depth) s"
    by (simp add: shard_def up comp_def seg rest)
  also have "\<dots> = s"
    by (simp add: concat_dir_segments)
  finally show "concat (shard s width depth True) = s" .
qed

theorem shard_rest_only_concat_witness:
  "(0::int) \<le> 2
   \<and> int (length (shard ''1f09d30c707d53f3d16c530dd73d70a6ce7596a9'' 2 2 True)) = 3
   \<and> concat (shard ''1f09d30c707d53f3d16c530dd73d70a6ce7596a9'' 2 2 True)
       = ''1f09d30c707d53f3d16c530dd73d70a6ce7596a9''"
proof -
  have h: "(0::int) \<le> 2" by simp
  note t = shard_rest_only_concat [OF h h, of "''1f09d30c707d53f3d16c530dd73d70a6ce7596a9''"]
  from t have "int (length (shard ''1f09d30c707d53f3d16c530dd73d70a6ce7596a9'' 2 2 True)) = 2 + 1"
    by (rule conjunct1)
  then have a: "int (length (shard ''1f09d30c707d53f3d16c530dd73d70a6ce7596a9'' 2 2 True)) = 3"
    by simp
  from t have b: "concat (shard ''1f09d30c707d53f3d16c530dd73d70a6ce7596a9'' 2 2 True)
       = ''1f09d30c707d53f3d16c530dd73d70a6ce7596a9''"
    by (rule conjunct2)
  from h a b show ?thesis by (intro conjI)
qed

section \<open>utils.hash_chunks\<close>

text \<open>
  \<open>digestmod\<close> is a parameter of \<open>hash_chunks\<close> (by default \<open>hashlib.sha1\<close>): a
  constructor of hash objects. A hash object is modelled by its state: \<open>hash_new\<close> is
  the state of a fresh object, \<open>hash_update\<close> feeds it a byte string, and
  \<open>hash_digest\<close> reads the digest bytes. \<open>hexdigest()\<close> is the digest written with
  two lowercase hexadecimal digits for each byte.
\<close>

record 's digestmod =
  hash_new :: 's
  hash_update :: "'s \<Rightarrow> byte list \<Rightarrow> 's"
  hash_digest :: "'s \<Rightarrow> byte list"

definition hexdigit :: "nat \<Rightarrow> char" where
  "hexdigit n = ''0123456789abcdef'' ! (n mod 16)"

definition hex_byte :: "byte \<Rightarrow> string" where
  "hex_byte b = [hexdigit (unat b div 16), hexdigit (unat b mod 16)]"

definition hexdigest :: "'s digestmod \<Rightarrow> 's \<Rightarrow> string" where
  "hexdigest dm st = concat (map hex_byte (hash_digest dm st))"

text \<open>
  The loop \<open>for chunk in iterator: digest.update(chunk)\<close> is a left fold over the
  chunks the iterator yields.
\<close>

definition hash_chunks :: "'s digestmod \<Rightarrow> byte list list \<Rightarrow> string" where
  "hash_chunks dm iterator = hexdigest dm (foldl (hash_update dm) (hash_new dm) iterator)"

text \<open>
  What hashlib documents of its hash objects, and what makes an accumulator
  incremental: \<open>m.update(a); m.update(b)\<close> is equivalent to \<open>m.update(a + b)\<close>, and
  feeding the empty byte string changes nothing.
\<close>

definition incremental :: "'s digestmod \<Rightarrow> bool" where
  "incremental dm \<longleftrightarrow>
     (\<forall>st. hash_update dm st [] = st) \<and>
     (\<forall>st a b. hash_update dm (hash_update dm st a) b = hash_update dm st (a @ b))"

text \<open>
  A small incremental hash to run the definitions on: the sum of the bytes modulo 256.
\<close>

definition sum8 :: "byte digestmod" where
  "sum8 = \<lparr>hash_new = 0, hash_update = (\<lambda>st chunk. st + sum_list chunk),
           hash_digest = (\<lambda>st. [st])\<rparr>"

lemma incremental_sum8: "incremental sum8"
  by (simp add: incremental_def sum8_def add.assoc)

lemma foldl_update_concat:
  assumes "incremental dm"
  shows "foldl (hash_update dm) st chunks = hash_update dm st (concat chunks)"
proof (induction chunks arbitrary: st)
  case Nil
  from assms show ?case by (simp add: incremental_def)
next
  case (Cons c chunks)
  from assms have "hash_update dm (hash_update dm st c) (concat chunks)
                   = hash_update dm st (c @ concat chunks)"
    by (simp add: incremental_def)
  with Cons show ?case by simp
qed

lemma hexdigit_lowercase: "hexdigit n \<in> set ''0123456789abcdef''"
proof -
  have "n mod 16 < length ''0123456789abcdef''" by simp
  then show ?thesis unfolding hexdigit_def by (rule nth_mem)
qed

lemma hexdigest_lowercase: "c \<in> set (hexdigest dm st) \<Longrightarrow> c \<in> set ''0123456789abcdef''"
  unfolding hexdigest_def hex_byte_def using hexdigit_lowercase by auto

text \<open>
  C8. For every two chunk sequences whose concatenations are the same byte string,
  hash_chunks, feeding each chunk in order into an incremental hash accumulator, returns
  the same digest, whatever the split into chunks: the digest of the accumulator fed
  the whole byte string at once. The digest is written in lowercase hexadecimal digits.
\<close>

theorem hash_chunks_split_independent:
  assumes "incremental dm" and "concat chunks1 = concat chunks2"
  shows "hash_chunks dm chunks1 = hash_chunks dm chunks2
    \<and> hash_chunks dm chunks1 = hexdigest dm (hash_update dm (hash_new dm) (concat chunks1))
    \<and> set (hash_chunks dm chunks1) \<subseteq> set ''0123456789abcdef''"
proof -
  have one: "hash_chunks dm cs = hexdigest dm (hash_update dm (hash_new dm) (concat cs))" for cs
    by (simp add: hash_chunks_def foldl_update_concat [OF assms(1)])
  have "set (hash_chunks dm chunks1) \<subseteq> set ''0123456789abcdef''"
    unfolding hash_chunks_def by (rule subsetI) (rule hexdigest_lowercase)
  with one [of chunks1] one [of chunks2] assms(2) show ?thesis by simp
qed

text \<open>
  C8 on the bytes 1, 2, 3 split as \<open>[1, 2], [3]\<close> and as \<open>[1], [], [2, 3]\<close>.
\<close>

theorem hash_chunks_split_independent_witness:
  "incremental sum8
   \<and> concat [[1, 2], [3 :: byte]] = concat [[1], [], [2, 3]]
   \<and> hash_chunks sum8 [[1, 2], [3]] = hash_chunks sum8 [[1], [], [2, 3]]
   \<and> hash_chunks sum8 [[1, 2], [3]] = ''06''"
proof -
  have c: "concat [[1, 2], [3 :: byte]] = concat [[1], [], [2, 3]]" by simp
  from hash_chunks_split_independent [OF incremental_sum8 c]
  have "hash_chunks sum8 [[1, 2], [3]] = hash_chunks sum8 [[1], [], [2, 3]]"
    by (rule conjunct1)
  moreover have "hash_chunks sum8 [[1, 2], [3]] = ''06''"
    by (simp add: hash_chunks_def hexdigest_def hex_byte_def hexdigit_def sum8_def)
  ultimately show ?thesis using incremental_sum8 c by simp
qed

section \<open>Errors\<close>

text \<open>
  The exceptions the modelled code can raise. Django's \<open>SuspiciousFileOperation\<close> is a
  subclass of \<open>SuspiciousOperation\<close>, the specification's SecurityViolation; the
  operating system's errors are subclasses of \<open>OSError\<close>, of which the model keeps the
  ones it tells apart and \<open>OSError\<close> itself for the rest (a directory that is not empty,
  the root directory). \<open>UnicodeDecodeError\<close> is a \<open>ValueError\<close> of its own kind.
\<close>

datatype error =
    SuspiciousOperation
  | SuspiciousFileOperation
  | ValueError
  | AttributeError
  | FileNotFoundError
  | FileExistsError
  | NotADirectoryError
  | IsADirectoryError
  | OSError
  | TypeError
  | UnicodeDecodeError

definition security_violation :: "error \<Rightarrow> bool" where
  "security_violation e \<longleftrightarrow> e = SuspiciousOperation \<or> e = SuspiciousFileOperation"

section \<open>posixpath\<close>

text \<open>
  The functions of \<open>os.path\<close> that the storage calls, on a POSIX host, where the
  separator is \<open>/\<close> and \<open>normcase\<close> is the identity. They work on strings alone.
\<close>

abbreviation sep :: char where
  "sep \<equiv> CHR ''/''"

text \<open>\<open>s.split(c)\<close> and \<open>c.join(words)\<close> for a single character \<open>c\<close>.\<close>

fun split_on :: "char \<Rightarrow> string \<Rightarrow> string list" where
  "split_on c [] = [[]]"
| "split_on c (x # xs) =
     (if x = c then [] # split_on c xs
      else (case split_on c xs of [] \<Rightarrow> [[x]] | w # ws \<Rightarrow> (x # w) # ws))"

fun join_on :: "char \<Rightarrow> string list \<Rightarrow> string" where
  "join_on c [] = []"
| "join_on c [w] = w"
| "join_on c (w # v # ws) = w @ c # join_on c (v # ws)"

text \<open>\<open>s.rfind(c)\<close>: the index of the last occurrence, or -1.\<close>

definition rfind :: "char \<Rightarrow> string \<Rightarrow> int" where
  "rfind c s =
     (if c \<in> set s then int (length s) - 1 - int (length (takeWhile (\<lambda>x. x \<noteq> c) (rev s)))
      else - 1)"

text \<open>\<open>s.rstrip(c)\<close> for a single character.\<close>

definition rstrip :: "char \<Rightarrow> string \<Rightarrow> string" where
  "rstrip c s = rev (dropWhile (\<lambda>x. x = c) (rev s))"

text \<open>
  \<open>join(a, *p)\<close>: a component that starts with the separator discards what stands
  before it.
\<close>

definition join_step :: "string \<Rightarrow> string \<Rightarrow> string" where
  "join_step path b =
     (if prefix [sep] b \<or> path = [] then b
      else if suffix [sep] path then path @ b
      else path @ [sep] @ b)"

definition join :: "string \<Rightarrow> string list \<Rightarrow> string" where
  "join a p = foldl join_step a p"

text \<open>
  \<open>normpath\<close>: the loop over the components keeps \<open>new_comps\<close>; \<open>initial_slashes\<close> is
  0, 1 or 2 (POSIX keeps exactly two leading slashes apart from one).
\<close>

fun normpath_comps :: "bool \<Rightarrow> string list \<Rightarrow> string list \<Rightarrow> string list" where
  "normpath_comps initial_slashes new_comps [] = new_comps"
| "normpath_comps initial_slashes new_comps (part # comps) =
     (if part = [] \<or> part = ''.'' then normpath_comps initial_slashes new_comps comps
      else if part \<noteq> ''..'' \<or> (\<not> initial_slashes \<and> new_comps = [])
              \<or> (new_comps \<noteq> [] \<and> last new_comps = ''..'')
        then normpath_comps initial_slashes (new_comps @ [part]) comps
      else if new_comps \<noteq> [] then normpath_comps initial_slashes (butlast new_comps) comps
      else normpath_comps initial_slashes new_comps comps)"

definition initial_slashes :: "string \<Rightarrow> nat" where
  "initial_slashes path =
     (if prefix [sep] path
      then (if prefix [sep, sep] path \<and> \<not> prefix [sep, sep, sep] path then 2 else 1)
      else 0)"

definition normpath :: "string \<Rightarrow> string" where
  "normpath path =
     (if path = [] then ''.''
      else let comps = normpath_comps (initial_slashes path \<noteq> 0) [] (split_on sep path);
               path' = replicate (initial_slashes path) sep @ join_on sep comps
           in if path' = [] then ''.'' else path')"

definition isabs :: "string \<Rightarrow> bool" where
  "isabs s = prefix [sep] s"

text \<open>\<open>abspath\<close>, with the working directory \<open>os.getcwd()\<close> as a parameter.\<close>

definition abspath :: "string \<Rightarrow> string \<Rightarrow> string" where
  "abspath getcwd path = normpath (if isabs path then path else join getcwd [path])"

definition dirname :: "string \<Rightarrow> string" where
  "dirname p =
     (let i = nat (rfind sep p + 1); head = take i p
      in if head \<noteq> [] \<and> head \<noteq> replicate (length head) sep then rstrip sep head else head)"

text \<open>
  \<open>splitext\<close> (\<open>genericpath._splitext\<close> with separator \<open>/\<close> and extension separator
  \<open>.\<close>). The loop skips the dots that lead the last component: a dot is the start of
  an extension only when some other character stands before it in that component.
\<close>

function splitext_scan :: "string \<Rightarrow> nat \<Rightarrow> nat \<Rightarrow> (string \<times> string) option" where
  "splitext_scan p filenameIndex dotIndex =
     (if filenameIndex < dotIndex
      then (if p ! filenameIndex \<noteq> CHR ''.'' then Some (take dotIndex p, drop dotIndex p)
            else splitext_scan p (filenameIndex + 1) dotIndex)
      else None)"
  by pat_completeness auto
termination
  by (relation "measure (\<lambda>(p, filenameIndex, dotIndex). dotIndex - filenameIndex)") auto

definition splitext :: "string \<Rightarrow> string \<times> string" where
  "splitext p =
     (let sepIndex = rfind sep p; dotIndex = rfind (CHR ''.'') p
      in if dotIndex > sepIndex
         then (case splitext_scan p (nat (sepIndex + 1)) (nat dotIndex) of
                 Some r \<Rightarrow> r
               | None \<Rightarrow> (p, []))
         else (p, []))"

text \<open>
  \<open>relpath(path, start)\<close>: the names of both absolute paths, what they share, then one
  \<open>..\<close> for each further name of \<open>start\<close> and the further names of \<open>path\<close>.
\<close>

definition path_names :: "string \<Rightarrow> string list" where
  "path_names p = filter (\<lambda>name. name \<noteq> []) (split_on sep p)"

fun commonprefix :: "string list \<Rightarrow> string list \<Rightarrow> string list" where
  "commonprefix (x # xs) (y # ys) = (if x = y then x # commonprefix xs ys else [])"
| "commonprefix _ _ = []"

definition relpath :: "string \<Rightarrow> string \<Rightarrow> string \<Rightarrow> error + string" where
  "relpath getcwd path start =
     (if path = [] then Inl ValueError
      else let start_list = path_names (abspath getcwd start);
               path_list = path_names (abspath getcwd path);
               i = length (commonprefix start_list path_list);
               rel_list = replicate (length start_list - i) ''..'' @ drop i path_list
           in if rel_list = [] then Inr ''.''
              else Inr (join (hd rel_list) (tl rel_list)))"

text \<open>
  \<open>django.utils._os.safe_join\<close>, a function of the Django library: the absolute
  version of the joined path, or \<open>SuspiciousFileOperation\<close> when it is not located
  inside the base path. The base path itself and, when the base is the root
  directory, every path are inside.
\<close>

definition safe_join :: "string \<Rightarrow> string \<Rightarrow> string list \<Rightarrow> error + string" where
  "safe_join getcwd base paths =
     (let final_path = abspath getcwd (join base paths);
          base_path = abspath getcwd base
      in if \<not> prefix (base_path @ [sep]) final_path
            \<and> final_path \<noteq> base_path
            \<and> dirname base_path \<noteq> base_path
         then Inl SuspiciousFileOperation
         else Inr final_path)"

section \<open>The file system\<close>

text \<open>
  The state the storage works on: a tree of directories and regular files (no symbolic
  links, no permissions), the working directory of the process, and a count of the
  files written, kept to tell a save that writes from one that does not. A node is
  named by its location, the list of names from the root directory down; the root
  directory \<open>[]\<close> always exists. Path strings reach the tree through \<open>resolve\<close>
  only, the way system calls resolve them: component by component, each step taken
  from a directory.
\<close>

datatype node = File "byte list" | Dir

type_synonym location = "string list"

record filesystem =
  nodes :: "(location \<times> node) list"
  cwd :: location
  writes :: nat

definition node_at :: "filesystem \<Rightarrow> location \<Rightarrow> node option" where
  "node_at fs loc = (if loc = [] then Some Dir else map_of (nodes fs) loc)"

definition getcwd :: "filesystem \<Rightarrow> string" where
  "getcwd fs = sep # join_on sep (cwd fs)"

definition step :: "location \<Rightarrow> string \<Rightarrow> location" where
  "step loc name =
     (if name = [] \<or> name = ''.'' then loc
      else if name = ''..'' then butlast loc
      else loc @ [name])"

fun walk :: "filesystem \<Rightarrow> location \<Rightarrow> string list \<Rightarrow> error + location" where
  "walk fs loc [] = Inr loc"
| "walk fs loc (name # names) =
     (case node_at fs loc of
        None \<Rightarrow> Inl FileNotFoundError
      | Some (File _) \<Rightarrow> Inl NotADirectoryError
      | Some Dir \<Rightarrow> walk fs (step loc name) names)"

definition resolve :: "filesystem \<Rightarrow> string \<Rightarrow> error + location" where
  "resolve fs path =
     (if path = [] then Inl FileNotFoundError
      else walk fs (if isabs path then [] else cwd fs) (split_on sep path))"

text \<open>
  \<open>os.stat\<close>: the identity of the node a path leads to (device and inode number in
  the stat result), here its location. \<open>os.path.samestat\<close> compares two of them.
\<close>

definition stat :: "filesystem \<Rightarrow> string \<Rightarrow> error + location" where
  "stat fs path =
     (case resolve fs path of
        Inl e \<Rightarrow> Inl e
      | Inr loc \<Rightarrow> (case node_at fs loc of None \<Rightarrow> Inl FileNotFoundError | Some _ \<Rightarrow> Inr loc))"

definition samestat :: "location \<Rightarrow> location \<Rightarrow> bool" where
  "samestat s1 s2 = (s1 = s2)"

definition exists_path :: "filesystem \<Rightarrow> string \<Rightarrow> bool" where
  "exists_path fs path = (case stat fs path of Inl _ \<Rightarrow> False | Inr _ \<Rightarrow> True)"

definition children :: "filesystem \<Rightarrow> location \<Rightarrow> string list" where
  "children fs loc =
     remdups (map (\<lambda>(l, _). last l) (filter (\<lambda>(l, _). l \<noteq> [] \<and> butlast l = loc) (nodes fs)))"

definition remove_node :: "filesystem \<Rightarrow> location \<Rightarrow> filesystem" where
  "remove_node fs loc = fs\<lparr>nodes := filter (\<lambda>(l, _). l \<noteq> loc) (nodes fs)\<rparr>"

definition put_node :: "filesystem \<Rightarrow> location \<Rightarrow> node \<Rightarrow> filesystem" where
  "put_node fs loc n = fs\<lparr>nodes := (loc, n) # filter (\<lambda>(l, _). l \<noteq> loc) (nodes fs)\<rparr>"

definition listdir :: "filesystem \<Rightarrow> string \<Rightarrow> error + string list" where
  "listdir fs path =
     (case resolve fs path of
        Inl e \<Rightarrow> Inl e
      | Inr loc \<Rightarrow>
          (case node_at fs loc of
             None \<Rightarrow> Inl FileNotFoundError
           | Some (File _) \<Rightarrow> Inl NotADirectoryError
           | Some Dir \<Rightarrow> Inr (children fs loc)))"

definition unlink :: "filesystem \<Rightarrow> string \<Rightarrow> error + filesystem" where
  "unlink fs path =
     (case resolve fs path of
        Inl e \<Rightarrow> Inl e
      | Inr loc \<Rightarrow>
          (case node_at fs loc of
             None \<Rightarrow> Inl FileNotFoundError
           | Some Dir \<Rightarrow> Inl IsADirectoryError
           | Some (File _) \<Rightarrow> Inr (remove_node fs loc)))"

text \<open>\<open>os.rmdir\<close> removes an empty directory, and never the root directory.\<close>

definition rmdir :: "filesystem \<Rightarrow> string \<Rightarrow> error + filesystem" where
  "rmdir fs path =
     (case resolve fs path of
        Inl e \<Rightarrow> Inl e
      | Inr loc \<Rightarrow>
          (case node_at fs loc of
             None \<Rightarrow> Inl FileNotFoundError
           | Some (File _) \<Rightarrow> Inl NotADirectoryError
           | Some Dir \<Rightarrow>
               if loc = [] \<or> children fs loc \<noteq> [] then Inl OSError
               else Inr (remove_node fs loc)))"

section \<open>utils.rm_file_and_empty_parents\<close>

text \<open>
  Python's truth value of \<open>root: str | None\<close>: \<open>None\<close> and the empty string are false.
\<close>

definition truthy :: "string option \<Rightarrow> bool" where
  "truthy root = (case root of None \<Rightarrow> False | Some s \<Rightarrow> s \<noteq> [])"

text \<open>
  One turn of the loop \<open>while not (root and samestat(root_stat, stat(directory)))\<close>:
  \<open>Inl\<close> when the function is over (the loop condition fails, the \<open>break\<close>, or an
  exception, carried with the state it leaves), \<open>Inr\<close> with the state after \<open>rmdir\<close>
  when the loop goes on with \<open>dirname(directory)\<close>. \<open>stat(directory)\<close> is evaluated only
  when \<open>root\<close> is true.
\<close>

definition prune_body ::
  "filesystem \<Rightarrow> string \<Rightarrow> (error option \<times> filesystem) + filesystem" where
  "prune_body fs directory =
     (case listdir fs directory of
        Inl e \<Rightarrow> Inl (Some e, fs)
      | Inr names \<Rightarrow>
          if names \<noteq> [] then Inl (None, fs)
          else (case rmdir fs directory of
                  Inl e \<Rightarrow> Inl (Some e, fs)
                | Inr fs' \<Rightarrow> Inr fs'))"

definition prune_turn ::
  "filesystem \<Rightarrow> string option \<Rightarrow> location option \<Rightarrow> string
     \<Rightarrow> (error option \<times> filesystem) + filesystem" where
  "prune_turn fs root root_stat directory =
     (if truthy root
      then (case stat fs directory of
              Inl e \<Rightarrow> Inl (Some e, fs)
            | Inr st \<Rightarrow>
                if (case root_stat of None \<Rightarrow> False | Some rs \<Rightarrow> samestat rs st)
                then Inl (None, fs)
                else prune_body fs directory)
      else prune_body fs directory)"

text \<open>
  The loop ends: a turn that goes on has removed a directory other than the root
  directory, so \<open>directory\<close> has a character other than the separator, and its
  \<open>dirname\<close> is shorter.
\<close>

lemma length_rstrip_le: "length (rstrip c s) \<le> length s"
proof -
  have "length (dropWhile (\<lambda>x. x = c) (rev s)) \<le> length (rev s)"
    by (rule length_dropWhile_le)
  then show ?thesis by (simp add: rstrip_def)
qed

lemma rev_last_first:
  assumes "s \<noteq> []"
  shows "rev s = last s # rev (butlast s)"
proof -
  from assms have "s = butlast s @ [last s]" by simp
  then have "rev s = rev (butlast s @ [last s])" by simp
  then show ?thesis by simp
qed

lemma rstrip_shorter:
  assumes "s \<noteq> []" and "last s = c"
  shows "length (rstrip c s) < length s"
proof -
  from assms have r: "rev s = c # rev (butlast s)"
    by (simp add: rev_last_first)
  have "rstrip c s = rev (dropWhile (\<lambda>x. x = c) (c # rev (butlast s)))"
    by (simp only: rstrip_def r)
  then have "length (rstrip c s) = length (dropWhile (\<lambda>x. x = c) (rev (butlast s)))"
    by simp
  moreover have "length (dropWhile (\<lambda>x. x = c) (rev (butlast s))) \<le> length (rev (butlast s))"
    by (rule length_dropWhile_le)
  moreover from assms(1) have "length (rev (butlast s)) < length s"
    by simp
  ultimately show ?thesis by simp
qed

lemma dirname_shorter:
  assumes "\<exists>c \<in> set d. c \<noteq> sep"
  shows "length (dirname d) < length d"
proof (cases "sep \<in> set d")
  case False
  with assms show ?thesis by (auto simp: dirname_def rfind_def)
next
  case True
  from assms have ne: "d \<noteq> []" by auto
  then have r: "rev d = last d # rev (butlast d)" by (rule rev_last_first)
  show ?thesis
  proof (cases "last d = sep")
    case False
    have "takeWhile (\<lambda>x. x \<noteq> sep) (rev d)
          = takeWhile (\<lambda>x. x \<noteq> sep) (last d # rev (butlast d))"
      by (simp only: r)
    with False have pos: "0 < length (takeWhile (\<lambda>x. x \<noteq> sep) (rev d))" by simp
    have "length (takeWhile (\<lambda>x. x \<noteq> sep) (rev d)) \<le> length (rev d)"
      by (rule length_takeWhile_le)
    then have le: "length (takeWhile (\<lambda>x. x \<noteq> sep) (rev d)) \<le> length d" by simp
    let ?i = "nat (rfind sep d + 1)"
    define n where "n = length (takeWhile (\<lambda>x. x \<noteq> sep) (rev d))"
    from True have "rfind sep d = int (length d) - 1 - int n"
      by (simp add: rfind_def n_def)
    moreover from pos le have "0 < n" and "n \<le> length d"
      by (simp_all add: n_def)
    ultimately have i: "?i < length d"
      by simp
    have "length (dirname d) \<le> length (take ?i d)"
      using length_rstrip_le [of sep "take ?i d"] by (simp add: dirname_def Let_def)
    with i show ?thesis by simp
  next
    case last: True
    have "takeWhile (\<lambda>x. x \<noteq> sep) (rev d)
          = takeWhile (\<lambda>x. x \<noteq> sep) (last d # rev (butlast d))"
      by (simp only: r)
    with last have "takeWhile (\<lambda>x. x \<noteq> sep) (rev d) = []" by simp
    with True have i: "nat (rfind sep d + 1) = length d"
      by (simp add: rfind_def)
    from assms have "d \<noteq> replicate (length d) sep"
    proof
      fix c assume "c \<in> set d" and "c \<noteq> sep"
      show ?thesis
      proof
        assume "d = replicate (length d) sep"
        then have "set d \<subseteq> {sep}" by (metis set_replicate_conv_if subset_insertI2 empty_subsetI subset_refl)
        with \<open>c \<in> set d\<close> \<open>c \<noteq> sep\<close> show False by auto
      qed
    qed
    with ne i have "dirname d = rstrip sep d"
      by (simp add: dirname_def Let_def)
    with ne last show ?thesis by (simp add: rstrip_shorter)
  qed
qed

lemma split_on_all_sep: "set d \<subseteq> {c} \<Longrightarrow> set (split_on c d) \<subseteq> {[]}"
  by (induction d) auto

lemma walk_root_empty_names: "set names \<subseteq> {[]} \<Longrightarrow> walk fs [] names = Inr []"
  by (induction names) (auto simp: node_at_def step_def)

lemma resolve_all_sep:
  assumes "d \<noteq> []" and "set d \<subseteq> {sep}"
  shows "resolve fs d = Inr []"
proof -
  from assms have "isabs d" by (cases d) (auto simp: isabs_def)
  with assms show ?thesis
    by (simp add: resolve_def walk_root_empty_names split_on_all_sep)
qed

lemma rmdir_not_all_sep:
  assumes "rmdir fs d = Inr fs'"
  shows "\<exists>c \<in> set d. c \<noteq> sep"
proof (rule ccontr)
  assume "\<not> (\<exists>c \<in> set d. c \<noteq> sep)"
  then have all: "set d \<subseteq> {sep}" by auto
  show False
  proof (cases "d = []")
    case True
    with assms show False by (simp add: rmdir_def resolve_def)
  next
    case False
    from False all have "resolve fs d = Inr []" by (rule resolve_all_sep)
    with assms show False by (simp add: rmdir_def node_at_def)
  qed
qed

lemma prune_body_goes_on: "prune_body fs d = Inr fs' \<Longrightarrow> rmdir fs d = Inr fs'"
  by (auto simp: prune_body_def split: sum.splits if_splits)

lemma prune_turn_goes_on: "prune_turn fs root rs d = Inr fs' \<Longrightarrow> rmdir fs d = Inr fs'"
  by (auto simp: prune_turn_def dest: prune_body_goes_on split: sum.splits if_splits)

function prune_loop ::
  "filesystem \<Rightarrow> string option \<Rightarrow> location option \<Rightarrow> string \<Rightarrow> error option \<times> filesystem" where
  "prune_loop fs root root_stat directory =
     (case prune_turn fs root root_stat directory of
        Inl result \<Rightarrow> result
      | Inr fs' \<Rightarrow> prune_loop fs' root root_stat (dirname directory))"
  by pat_completeness auto
termination
proof (relation "measure (\<lambda>(fs, root, root_stat, directory). length directory)")
  show "wf (measure (\<lambda>(fs, root, root_stat, directory). length directory))"
    by simp
next
  fix fs :: filesystem and root root_stat directory fs'
  assume "prune_turn fs root root_stat directory = Inr fs'"
  then have "rmdir fs directory = Inr fs'" by (rule prune_turn_goes_on)
  then have "\<exists>c \<in> set directory. c \<noteq> sep" by (rule rmdir_not_all_sep)
  then have "length (dirname directory) < length directory" by (rule dirname_shorter)
  then show "((fs', root, root_stat, dirname directory), (fs, root, root_stat, directory))
             \<in> measure (\<lambda>(fs, root, root_stat, directory). length directory)"
    by simp
qed

text \<open>
  The function: \<open>stat(root)\<close> when \<open>root\<close> is true, \<open>unlink(filename)\<close>, then the loop
  from \<open>dirname(filename)\<close>. The result is the exception raised, if any, and the state
  of the file system the call leaves behind.
\<close>

definition rm_file_and_empty_parents ::
  "filesystem \<Rightarrow> string \<Rightarrow> string option \<Rightarrow> error option \<times> filesystem" where
  "rm_file_and_empty_parents fs filename root =
     (case (if truthy root then map_sum id Some (stat fs (the root)) else Inr None) of
        Inl e \<Rightarrow> (Some e, fs)
      | Inr root_stat \<Rightarrow>
          (case unlink fs filename of
             Inl e \<Rightarrow> (Some e, fs)
           | Inr fs' \<Rightarrow> prune_loop fs' root root_stat (dirname filename)))"

section \<open>utils.hash_filename\<close>

text \<open>
  \<open>open(filename)\<close> for reading: the bytes of the regular file the path leads to.
\<close>

definition open_file :: "filesystem \<Rightarrow> string \<Rightarrow> error + byte list" where
  "open_file fs path =
     (case resolve fs path of
        Inl e \<Rightarrow> Inl e
      | Inr loc \<Rightarrow>
          (case node_at fs loc of
             None \<Rightarrow> Inl FileNotFoundError
           | Some Dir \<Rightarrow> Inl IsADirectoryError
           | Some (File data) \<Rightarrow> Inr data))"

text \<open>
  \<open>hash_filename\<close> opens the file with \<open>open(filename)\<close>, in text mode, and hashes the
  chunks that \<open>File.chunks\<close> reads from it. A read in text mode decodes the bytes with
  the encoding of the locale: \<open>read_text data\<close> is what the first \<open>read(chunk_size)\<close>
  returns on a file with the bytes \<open>data\<close>, the characters read, none at the end of the
  file, or a \<open>UnicodeDecodeError\<close>. It is a parameter, as the encoding is.
  \<open>File.chunks\<close> stops at an empty read, so an empty file has no chunks and its hash is
  the hash of nothing; any other chunk is a \<open>str\<close>, not \<open>bytes\<close>, and the first
  \<open>digest.update(chunk)\<close> raises \<open>TypeError\<close>, as the \<open>update\<close> of a \<open>hashlib\<close> object
  does on a \<open>str\<close>. The file is closed in either case.
\<close>

type_synonym text_reader = "byte list \<Rightarrow> error + string"

definition hash_filename ::
  "text_reader \<Rightarrow> 's digestmod \<Rightarrow> filesystem \<Rightarrow> string \<Rightarrow> error + string" where
  "hash_filename read_text dm fs filename =
     (case open_file fs filename of
        Inl e \<Rightarrow> Inl e
      | Inr data \<Rightarrow>
          (case read_text data of
             Inl e \<Rightarrow> Inl e
           | Inr chunk \<Rightarrow> if chunk = [] then Inr (hash_chunks dm []) else Inl TypeError))"

text \<open>
  A reader to run the definitions with: the text layer of an ASCII locale, which reads
  as many characters as bytes, \<open>chunk_size\<close> (64 KiB) of them at most.
\<close>

definition ascii_text :: text_reader where
  "ascii_text data =
     (let window = take 65536 data
      in if list_all (\<lambda>b. b < 128) window then Inr (map (\<lambda>b. char_of (unat b)) window)
         else Inl UnicodeDecodeError)"

section \<open>storage.CAStorage\<close>

text \<open>
  The storage object: \<open>location\<close> and \<open>base_url\<close> of \<open>FileSystemStorage\<close>, and the two
  options \<open>CAStorage\<close> adds, \<open>sharding\<close> unpacked into width and depth.
\<close>

record storage =
  location :: string
  base_url :: string
  keep_extension :: bool
  shard_width :: int
  shard_depth :: int

text \<open>
  The content of a file to save, a Django \<open>File\<close>. The storage tells two kinds apart:
  a content with the attribute \<open>temporary_file_path\<close>, an upload spooled to a temporary
  file on disk, given here by the path that \<open>temporary_file_path()\<close> returns; and any
  other content, given by the byte chunks that \<open>content.chunks()\<close> yields, which reads
  the content from its start on every call.
\<close>

datatype content =
    InMemoryUploadedFile "byte list list"
  | TemporaryUploadedFile string

definition get_available_name :: "string \<Rightarrow> string" where
  "get_available_name name = name"

text \<open>
  \<open>digest\<close>: the hash function is the default of \<open>hash_filename\<close> and of \<open>hash_chunks\<close>,
  theirs to choose and a parameter here. \<open>content.seek(0)\<close> leaves the content as
  \<open>chunks()\<close> will read it again.
\<close>

definition CAStorage_digest ::
  "text_reader \<Rightarrow> 's digestmod \<Rightarrow> filesystem \<Rightarrow> content \<Rightarrow> error + string" where
  "CAStorage_digest read_text dm fs c =
     (case c of
        TemporaryUploadedFile temporary_file_path \<Rightarrow>
          hash_filename read_text dm fs temporary_file_path
      | InMemoryUploadedFile chunks \<Rightarrow> Inr (hash_chunks dm chunks))"

definition CAStorage_shard :: "storage \<Rightarrow> string \<Rightarrow> string list" where
  "CAStorage_shard self hexdigest' = shard hexdigest' (shard_width self) (shard_depth self) False"

text \<open>
  \<open>path\<close>: a \<open>ValueError\<close> of \<open>safe_join\<close> becomes \<open>SuspiciousOperation\<close>; any other
  exception passes through.
\<close>

definition CAStorage_path :: "storage \<Rightarrow> filesystem \<Rightarrow> string \<Rightarrow> error + string" where
  "CAStorage_path self fs name =
     (let shards = CAStorage_shard self name
      in case safe_join (getcwd fs) (location self) shards of
           Inl e \<Rightarrow> Inl (if e = ValueError then SuspiciousOperation else e)
         | Inr path \<Rightarrow> Inr (normpath path))"

text \<open>
  \<open>delete\<close>. After \<open>path = name\<close> the local variable \<open>path\<close> is the string, and the test
  \<open>path.sep not in path\<close> reads the attribute \<open>sep\<close> of that string (the module
  \<open>os.path\<close> is imported as \<open>os_path\<close>). A \<open>str\<close> has no attribute \<open>sep\<close>.
\<close>

definition str_getattr_sep :: "string \<Rightarrow> error + string" where
  "str_getattr_sep s = Inl AttributeError"

definition contains :: "string \<Rightarrow> string \<Rightarrow> bool" where
  "contains needle s = (\<exists>k \<in> set [0..<Suc (length s)]. prefix needle (drop k s))"

definition CAStorage_delete ::
  "storage \<Rightarrow> filesystem \<Rightarrow> string \<Rightarrow> bool \<Rightarrow> error option \<times> filesystem" where
  "CAStorage_delete self fs name sure =
     (if \<not> sure then (None, fs)
      else
        (case str_getattr_sep name of
           Inl e \<Rightarrow> (Some e, fs)
         | Inr path_sep \<Rightarrow>
             (case (if \<not> contains path_sep name then CAStorage_path self fs name else Inr name) of
                Inl e \<Rightarrow> (Some e, fs)
              | Inr path \<Rightarrow> rm_file_and_empty_parents fs path (Some (location self)))))"


section \<open>FileSystemStorage._save\<close>

text \<open>
  \<open>CAStorage._save\<close> ends in \<open>super()._save(digest, content)\<close>, the method of Django's
  \<open>FileSystemStorage\<close>, library code like \<open>os.path\<close>. It resolves the name with
  \<open>self.path\<close>, which is \<open>CAStorage.path\<close>; makes the directories above the file; writes
  the file, and tries again under \<open>get_available_name(name)\<close> as long as the write
  raises \<open>FileExistsError\<close>; and returns the path of the file written relative to
  \<open>self.location\<close>, with forward slashes. The paths it works on come from \<open>path\<close>:
  absolute and normalised.

  \<open>os.makedirs(directory, exist_ok=True)\<close> makes the missing directories from the
  first missing one down. It raises \<open>NotADirectoryError\<close> where a name on the way is a
  file, \<open>FileExistsError\<close> where the last name is; both before any directory is made,
  as nothing exists below a directory that was missing.
\<close>

fun makedirs_walk :: "filesystem \<Rightarrow> location \<Rightarrow> string list \<Rightarrow> error + filesystem" where
  "makedirs_walk fs loc [] = Inr fs"
| "makedirs_walk fs loc (name # names) =
     (case node_at fs (step loc name) of
        Some (File _) \<Rightarrow> Inl (if names = [] then FileExistsError else NotADirectoryError)
      | Some Dir \<Rightarrow> makedirs_walk fs (step loc name) names
      | None \<Rightarrow> makedirs_walk (put_node fs (step loc name) Dir) (step loc name) names)"

definition makedirs :: "filesystem \<Rightarrow> string \<Rightarrow> error + filesystem" where
  "makedirs fs path =
     makedirs_walk fs (if isabs path then [] else cwd fs) (split_on sep path)"

text \<open>
  \<open>os.open(full_path, O_WRONLY | O_CREAT | O_EXCL)\<close> creates the file and fails when
  anything exists at the path; the chunks of the content are then written to it. One
  file written is counted in \<open>writes\<close>.
\<close>

definition os_open_excl :: "filesystem \<Rightarrow> string \<Rightarrow> error + location" where
  "os_open_excl fs path =
     (case resolve fs path of
        Inl e \<Rightarrow> Inl e
      | Inr loc \<Rightarrow> (case node_at fs loc of Some _ \<Rightarrow> Inl FileExistsError | None \<Rightarrow> Inr loc))"

definition write_new_file :: "filesystem \<Rightarrow> string \<Rightarrow> byte list \<Rightarrow> error + filesystem" where
  "write_new_file fs path data =
     (case os_open_excl fs path of
        Inl e \<Rightarrow> Inl e
      | Inr loc \<Rightarrow> Inr ((put_node fs loc (File data))\<lparr>writes := writes fs + 1\<rparr>))"

text \<open>
  \<open>os.rename\<close>: the node moves to the new location with all that is below it, and
  takes the place of a file or of an empty directory there. A file does not replace a
  directory nor a directory a file, a directory does not move into itself or onto a
  directory that is not empty, and the root directory does not move or give way.
\<close>

definition move_tree :: "filesystem \<Rightarrow> location \<Rightarrow> location \<Rightarrow> filesystem" where
  "move_tree fs old new =
     fs\<lparr>nodes :=
          map (\<lambda>(l, n). if prefix old l then (new @ drop (length old) l, n) else (l, n))
            (filter (\<lambda>(l, _). l \<noteq> new) (nodes fs))\<rparr>"

definition rename :: "filesystem \<Rightarrow> string \<Rightarrow> string \<Rightarrow> error + filesystem" where
  "rename fs src dst =
     (case resolve fs src of
        Inl e \<Rightarrow> Inl e
      | Inr old \<Rightarrow>
          (case node_at fs old of
             None \<Rightarrow> Inl FileNotFoundError
           | Some n \<Rightarrow>
               (case resolve fs dst of
                  Inl e \<Rightarrow> Inl e
                | Inr new \<Rightarrow>
                    if new = old then Inr fs
                    else if old = [] \<or> new = [] \<or> prefix old new then Inl OSError
                    else (case (n, node_at fs new) of
                            (File _, Some Dir) \<Rightarrow> Inl IsADirectoryError
                          | (Dir, Some (File _)) \<Rightarrow> Inl NotADirectoryError
                          | (Dir, Some Dir) \<Rightarrow>
                              if children fs new \<noteq> [] then Inl OSError
                              else Inr (move_tree fs old new)
                          | _ \<Rightarrow> Inr (move_tree fs old new)))))"

text \<open>
  \<open>file_move_safe(old_file_name, new_file_name)\<close> of \<open>django.core.files.move\<close>, without
  \<open>allow_overwrite\<close>. There is nothing to do when both names are the same file (an
  \<open>OSError\<close> of \<open>samefile\<close> counts as not the same). Otherwise \<open>os.rename\<close> moves the
  file, unless the new name exists, which raises \<open>FileExistsError\<close>. That exception
  and those of \<open>os.rename\<close> are \<open>OSError\<close>s and are caught, and the file is copied by
  hand: open the old file, create the new one with \<open>O_EXCL\<close>, which raises
  \<open>FileExistsError\<close> when the new name exists, write the bytes, remove the old file.
  A file moved into place is counted in \<open>writes\<close>.
\<close>

definition samefile :: "filesystem \<Rightarrow> string \<Rightarrow> string \<Rightarrow> bool" where
  "samefile fs f1 f2 =
     (case stat fs f1 of
        Inl _ \<Rightarrow> False
      | Inr s1 \<Rightarrow> (case stat fs f2 of Inl _ \<Rightarrow> False | Inr s2 \<Rightarrow> samestat s1 s2))"

definition copy_and_remove :: "filesystem \<Rightarrow> string \<Rightarrow> string \<Rightarrow> error + filesystem" where
  "copy_and_remove fs old_file_name new_file_name =
     (case open_file fs old_file_name of
        Inl e \<Rightarrow> Inl e
      | Inr data \<Rightarrow>
          (case os_open_excl fs new_file_name of
             Inl e \<Rightarrow> Inl e
           | Inr loc \<Rightarrow> unlink (put_node fs loc (File data)) old_file_name))"

definition file_move_safe :: "filesystem \<Rightarrow> string \<Rightarrow> string \<Rightarrow> error + filesystem" where
  "file_move_safe fs old_file_name new_file_name =
     (if samefile fs old_file_name new_file_name then Inr fs
      else (case (case (if exists_path fs new_file_name then Inl FileExistsError
                        else rename fs old_file_name new_file_name) of
                    Inl _ \<Rightarrow> copy_and_remove fs old_file_name new_file_name
                  | Inr fs' \<Rightarrow> Inr fs') of
              Inl e \<Rightarrow> Inl e
            | Inr fs' \<Rightarrow> Inr (fs'\<lparr>writes := writes fs + 1\<rparr>)))"

text \<open>
  One turn of the loop \<open>while True\<close>: the content that has a \<open>temporary_file_path\<close> is
  moved into place, any other is written chunk by chunk into a new file. An exception
  leaves the file system as it was.
\<close>

definition save_attempt :: "filesystem \<Rightarrow> content \<Rightarrow> string \<Rightarrow> error + filesystem" where
  "save_attempt fs c full_path =
     (case c of
        TemporaryUploadedFile temporary_file_path \<Rightarrow>
          file_move_safe fs temporary_file_path full_path
      | InMemoryUploadedFile chunks \<Rightarrow> write_new_file fs full_path (concat chunks))"

text \<open>
  The loop: on \<open>FileExistsError\<close> it goes on with \<open>name = self.get_available_name(name)\<close>
  and \<open>full_path = self.path(name)\<close>, on success it is left with the path written,
  and any other exception leaves the method. \<open>CAStorage.get_available_name\<close> returns
  the name as it is, so a turn that fails with \<open>FileExistsError\<close> is followed by the
  same turn: the loop does not end then, and its result is \<open>None\<close>.
\<close>

partial_function (option) save_loop ::
  "storage \<Rightarrow> filesystem \<Rightarrow> content \<Rightarrow> string \<Rightarrow> string
     \<Rightarrow> ((error + string) \<times> filesystem) option" where
  [code]: "save_loop self fs c name full_path =
     (case save_attempt fs c full_path of
        Inr fs' \<Rightarrow> Some (Inr full_path, fs')
      | Inl e \<Rightarrow>
          if e = FileExistsError
          then (case CAStorage_path self fs (get_available_name name) of
                  Inl e' \<Rightarrow> Some (Inl e', fs)
                | Inr full_path' \<Rightarrow> save_loop self fs c (get_available_name name) full_path')
          else Some (Inl e, fs))"

text \<open>
  The name returned: \<open>os.path.relpath(full_path, self.location)\<close>, with every
  backslash replaced by a forward slash.
\<close>

definition forward_slashes :: "string \<Rightarrow> string" where
  "forward_slashes name = map (\<lambda>c. if c = CHR 0x5C then sep else c) name"

definition FileSystemStorage_save ::
  "storage \<Rightarrow> filesystem \<Rightarrow> string \<Rightarrow> content \<Rightarrow> ((error + string) \<times> filesystem) option" where
  "FileSystemStorage_save self fs name c =
     (case CAStorage_path self fs name of
        Inl e \<Rightarrow> Some (Inl e, fs)
      | Inr full_path \<Rightarrow>
          (case makedirs fs (dirname full_path) of
             Inl e \<Rightarrow> Some (Inl e, fs)
           | Inr fs1 \<Rightarrow>
               (case save_loop self fs1 c name full_path of
                  None \<Rightarrow> None
                | Some (Inl e, fs2) \<Rightarrow> Some (Inl e, fs2)
                | Some (Inr written, fs2) \<Rightarrow>
                    (case relpath (getcwd fs2) written (location self) of
                       Inl e \<Rightarrow> Some (Inl e, fs2)
                     | Inr rel \<Rightarrow> Some (Inr (forward_slashes rel), fs2)))))"

section \<open>CAStorage._save\<close>

text \<open>
  The stored name: the digest, with \<open>os.path.splitext(name)[1]\<close> appended when
  \<open>keep_extension\<close> is set. When a file exists at its path the stored name is
  returned; otherwise the result is the result of \<open>FileSystemStorage._save\<close>.
\<close>

definition stored_name ::
  "text_reader \<Rightarrow> storage \<Rightarrow> 's digestmod \<Rightarrow> filesystem \<Rightarrow> string \<Rightarrow> content
     \<Rightarrow> error + string" where
  "stored_name read_text self dm fs name c =
     (case CAStorage_digest read_text dm fs c of
        Inl e \<Rightarrow> Inl e
      | Inr digest \<Rightarrow>
          Inr (if keep_extension self then digest @ snd (splitext name) else digest))"

definition CAStorage_save ::
  "text_reader \<Rightarrow> storage \<Rightarrow> 's digestmod \<Rightarrow> filesystem \<Rightarrow> string \<Rightarrow> content
     \<Rightarrow> ((error + string) \<times> filesystem) option" where
  "CAStorage_save read_text self dm fs name c =
     (case stored_name read_text self dm fs name c of
        Inl e \<Rightarrow> Some (Inl e, fs)
      | Inr digest \<Rightarrow>
          (case CAStorage_path self fs digest of
             Inl e \<Rightarrow> Some (Inl e, fs)
           | Inr path \<Rightarrow>
               if exists_path fs path then Some (Inr digest, fs)
               else FileSystemStorage_save self fs digest c))"

section \<open>A small store to run the definitions on\<close>

text \<open>
  A storage at \<open>/data\<close> with the default options, and the file system after one file
  has been saved in it: the content with the bytes 1, 2, 3 under the name
  \<open>photo.png\<close>, hashed with \<open>sum8\<close>, which is stored as \<open>06.png\<close>.
\<close>

definition example_storage :: storage where
  "example_storage =
     \<lparr>location = ''/data'', base_url = ''/media/'', keep_extension = True,
      shard_width = 2, shard_depth = 2\<rparr>"

definition example_content :: content where
  "example_content = InMemoryUploadedFile [[1, 2], [3]]"

definition empty_fs :: filesystem where
  "empty_fs = \<lparr>nodes = [], cwd = [], writes = 0\<rparr>"

definition example_fs :: filesystem where
  "example_fs =
     \<lparr>nodes =
        [([''data'', ''06'', ''.p'', ''06.png''], File [1, 2, 3]),
         ([''data'', ''06'', ''.p''], Dir), ([''data'', ''06''], Dir), ([''data''], Dir)],
      cwd = [], writes = 1\<rparr>"

text \<open>
  The file system after the same content has been saved under a name that has no
  extension: it is stored as \<open>06\<close>.
\<close>

definition bare_fs :: filesystem where
  "bare_fs =
     \<lparr>nodes =
        [([''data'', ''06'', ''06''], File [1, 2, 3]), ([''data'', ''06''], Dir), ([''data''], Dir)],
      cwd = [], writes = 1\<rparr>"

section \<open>Claims about delete\<close>

text \<open>
  C3. An unconfirmed delete is a no-op: for every name, whether it exists or not,
  \<open>delete(name, sure=False)\<close> returns without raising and leaves the state of the file
  system as it was; no file and no directory is removed.
\<close>

theorem delete_unconfirmed_noop: "CAStorage_delete self fs name False = (None, fs)"
  by (simp add: CAStorage_delete_def)

text \<open>C3 at the stored file of the example: it is still there.\<close>

theorem delete_unconfirmed_noop_witness:
  "CAStorage_delete example_storage example_fs ''06.png'' False = (None, example_fs)
   \<and> exists_path (snd (CAStorage_delete example_storage example_fs ''06.png'' False))
        ''/data/06/.p/06.png''"
proof -
  have "exists_path example_fs ''/data/06/.p/06.png''"
    by code_simp
  then show ?thesis
    by (simp add: delete_unconfirmed_noop [of example_storage example_fs "''06.png''"])
qed

text \<open>
  C4 says that a confirmed delete takes a name with a path separator as a path already
  resolved, resolves any other name through \<open>path\<close>, and reaches the unlink. The code
  does not: for every name, \<open>delete(name, sure=True)\<close> raises \<open>AttributeError\<close> at the
  test \<open>path.sep not in path\<close>, before any path is resolved and before
  \<open>rm_file_and_empty_parents\<close> is called, and the file system is left as it was.
\<close>

theorem delete_confirmed_raises: "CAStorage_delete self fs name True = (Some AttributeError, fs)"
  by (simp add: CAStorage_delete_def str_getattr_sep_def)

text \<open>
  At the stored file of the example, by its name and by its path: the delete raises and
  the file stays.
\<close>

theorem delete_confirmed_raises_example:
  "CAStorage_delete example_storage example_fs ''06.png'' True = (Some AttributeError, example_fs)
   \<and> CAStorage_delete example_storage example_fs ''/data/06/.p/06.png'' True
       = (Some AttributeError, example_fs)
   \<and> exists_path example_fs ''/data/06/.p/06.png''
   \<and> rm_file_and_empty_parents example_fs ''/data/06/.p/06.png'' (Some ''/data'')
       = (None, \<lparr>nodes = [([''data''], Dir)], cwd = [], writes = 1\<rparr>)"
  by code_simp

section \<open>The extension of a name\<close>

text \<open>
  The specification's wording: the extension is the text after the last \<open>.\<close> in the
  last path component, including the dot, and empty if there is no dot.
\<close>

definition last_component :: "string \<Rightarrow> string" where
  "last_component name = rev (takeWhile (\<lambda>x. x \<noteq> sep) (rev name))"

definition from_last_dot :: "string \<Rightarrow> string" where
  "from_last_dot b =
     (if CHR ''.'' \<in> set b then CHR ''.'' # rev (takeWhile (\<lambda>x. x \<noteq> CHR ''.'') (rev b))
      else [])"

definition extension_as_specified :: "string \<Rightarrow> string" where
  "extension_as_specified name = from_last_dot (last_component name)"

text \<open>
  What \<open>splitext\<close> returns: the same, unless every character that stands before the
  last dot in the last component is itself a dot (as in \<open>.bashrc\<close>); then the
  extension is empty.
\<close>

definition before_last_dot :: "string \<Rightarrow> string" where
  "before_last_dot b = rev (tl (dropWhile (\<lambda>x. x \<noteq> CHR ''.'') (rev b)))"

definition extension :: "string \<Rightarrow> string" where
  "extension name =
     (let b = last_component name
      in if CHR ''.'' \<in> set b \<and> (\<exists>x \<in> set (before_last_dot b). x \<noteq> CHR ''.'')
         then from_last_dot b else [])"

lemma takeWhile_until: "c \<notin> set t \<Longrightarrow> takeWhile (\<lambda>x. x \<noteq> c) (t @ c # a) = t"
  by (induction t) auto

lemma dropWhile_until: "c \<notin> set t \<Longrightarrow> dropWhile (\<lambda>x. x \<noteq> c) (t @ c # a) = c # a"
  by (induction t) auto

lemma rfind_absent: "c \<notin> set s \<Longrightarrow> rfind c s = - 1"
  by (simp add: rfind_def)

lemma rfind_last_occurrence:
  assumes "c \<notin> set t"
  shows "rfind c (a @ c # t) = int (length a)"
proof -
  from assms have "takeWhile (\<lambda>x. x \<noteq> c) (rev t @ c # rev a) = rev t"
    by (intro takeWhile_until) simp
  then show ?thesis by (simp add: rfind_def)
qed

lemma rfind_less: "rfind c s < int (length s)"
proof (cases "c \<in> set s")
  case True
  then obtain a t where "s = a @ c # t" and "c \<notin> set t"
    by (auto dest: split_list_last)
  then show ?thesis by (simp add: rfind_last_occurrence)
next
  case False
  then show ?thesis by (simp add: rfind_absent)
qed

lemma rfind_append_absent:
  assumes "c \<notin> set t"
  shows "rfind c (a @ t) = rfind c a"
proof (cases "c \<in> set a")
  case True
  then obtain a1 a2 where a: "a = a1 @ c # a2" and "c \<notin> set a2"
    by (auto dest: split_list_last)
  with assms have "c \<notin> set (a2 @ t)" by simp
  then have "rfind c (a1 @ c # (a2 @ t)) = int (length a1)"
    by (rule rfind_last_occurrence)
  moreover from \<open>c \<notin> set a2\<close> have "rfind c (a1 @ c # a2) = int (length a1)"
    by (rule rfind_last_occurrence)
  ultimately show ?thesis using a by simp
next
  case False
  with assms show ?thesis by (simp add: rfind_absent)
qed

lemma splitext_scan_result:
  "splitext_scan p i d =
     (if \<exists>k. i \<le> k \<and> k < d \<and> p ! k \<noteq> CHR ''.''
      then Some (take d p, drop d p) else None)"
proof (induction p i d rule: splitext_scan.induct)
  case (1 p i d)
  show ?case
  proof (cases "i < d")
    case False
    then show ?thesis by (subst splitext_scan.simps) auto
  next
    case True
    show ?thesis
    proof (cases "p ! i \<noteq> CHR ''.''")
      case nd: True
      with True have "\<exists>k. i \<le> k \<and> k < d \<and> p ! k \<noteq> CHR ''.''" by auto
      with True nd show ?thesis by (subst splitext_scan.simps) simp
    next
      case dot: False
      have "(\<exists>k. i \<le> k \<and> k < d \<and> p ! k \<noteq> CHR ''.'')
            \<longleftrightarrow> (\<exists>k. i + 1 \<le> k \<and> k < d \<and> p ! k \<noteq> CHR ''.'')"
      proof
        assume "\<exists>k. i \<le> k \<and> k < d \<and> p ! k \<noteq> CHR ''.''"
        then obtain k where k: "i \<le> k" "k < d" "p ! k \<noteq> CHR ''.''" by blast
        with dot have "k \<noteq> i" by auto
        with k show "\<exists>k. i + 1 \<le> k \<and> k < d \<and> p ! k \<noteq> CHR ''.''"
          by (intro exI [of _ k]) simp
      next
        assume "\<exists>k. i + 1 \<le> k \<and> k < d \<and> p ! k \<noteq> CHR ''.''"
        then obtain k where "i + 1 \<le> k" "k < d" "p ! k \<noteq> CHR ''.''" by blast
        then show "\<exists>k. i \<le> k \<and> k < d \<and> p ! k \<noteq> CHR ''.''"
          by (intro exI [of _ k]) simp
      qed
      with True dot "1.IH" show ?thesis by (subst splitext_scan.simps) simp
    qed
  qed
qed

text \<open>A name is what stands before its last component, and that component.\<close>

lemma name_decomposition:
  obtains pre where "name = pre @ last_component name"
    and "sep \<notin> set (last_component name)"
    and "rfind sep name + 1 = int (length pre)"
proof (cases "sep \<in> set name")
  case True
  then obtain a b where n: "name = a @ sep # b" and b: "sep \<notin> set b"
    by (auto dest: split_list_last)
  from b have "takeWhile (\<lambda>x. x \<noteq> sep) (rev b @ sep # rev a) = rev b"
    by (intro takeWhile_until) simp
  with n have lc: "last_component name = b" by (simp add: last_component_def)
  from n b have "rfind sep name + 1 = int (length (a @ [sep]))"
    by (simp add: rfind_last_occurrence)
  with n lc b show ?thesis by (intro that [of "a @ [sep]"]) simp_all
next
  case False
  then have "\<forall>x \<in> set (rev name). x \<noteq> sep" by auto
  then have tw: "takeWhile (\<lambda>x. x \<noteq> sep) (rev name) = rev name"
    by (rule takeWhile_eq_all_conv [THEN iffD2])
  have "last_component name = rev (rev name)"
    by (simp only: last_component_def tw)
  then have "last_component name = name" by simp
  with False show ?thesis by (intro that [of "[]"]) (simp_all add: rfind_absent)
qed

lemma snd_splitext: "snd (splitext name) = extension name"
proof -
  obtain pre where n: "name = pre @ last_component name"
    and nosep: "sep \<notin> set (last_component name)"
    and si: "rfind sep name + 1 = int (length pre)"
    by (rule name_decomposition)
  define b where "b = last_component name"
  show ?thesis
  proof (cases "CHR ''.'' \<in> set b")
    case False
    with n have "rfind (CHR ''.'') name = rfind (CHR ''.'') pre"
      using rfind_append_absent [of "CHR ''.''" b pre] by (simp add: b_def)
    moreover have "rfind (CHR ''.'') pre < int (length pre)" by (rule rfind_less)
    ultimately have "\<not> rfind (CHR ''.'') name > rfind sep name" using si by simp
    with False show ?thesis by (simp add: splitext_def extension_def Let_def b_def)
  next
    case True
    then obtain s e where bse: "b = s @ CHR ''.'' # e" and e: "CHR ''.'' \<notin> set e"
      by (auto dest: split_list_last)
    from e have tw: "takeWhile (\<lambda>x. x \<noteq> CHR ''.'') (rev e @ CHR ''.'' # rev s) = rev e"
      by (intro takeWhile_until) simp
    from e have dw: "dropWhile (\<lambda>x. x \<noteq> CHR ''.'') (rev e @ CHR ''.'' # rev s) = CHR ''.'' # rev s"
      by (intro dropWhile_until) simp
    from bse tw have fld: "from_last_dot b = CHR ''.'' # e" by (simp add: from_last_dot_def)
    from bse dw have bld: "before_last_dot b = s" by (simp add: before_last_dot_def)
    from n bse have name: "name = (pre @ s) @ CHR ''.'' # e" by (simp add: b_def)
    with e have di: "rfind (CHR ''.'') name = int (length (pre @ s))"
      using rfind_last_occurrence [of "CHR ''.''" e "pre @ s"] by simp
    with si have gt: "rfind (CHR ''.'') name > rfind sep name" by simp
    from name have dr: "drop (length pre + length s) name = CHR ''.'' # e" by simp
    have ex: "(\<exists>k. length pre \<le> k \<and> k < length pre + length s \<and> name ! k \<noteq> CHR ''.'')
              \<longleftrightarrow> (\<exists>x \<in> set s. x \<noteq> CHR ''.'')"
    proof
      assume "\<exists>k. length pre \<le> k \<and> k < length pre + length s \<and> name ! k \<noteq> CHR ''.''"
      then obtain k where k: "length pre \<le> k" "k < length pre + length s" "name ! k \<noteq> CHR ''.''"
        by blast
      from k(1,2) have kk: "k - length pre < length s" by arith
      from name have "name ! k = (pre @ (s @ CHR ''.'' # e)) ! k" by simp
      also from k(1) have "\<dots> = (s @ CHR ''.'' # e) ! (k - length pre)"
        by (simp add: nth_append)
      also from kk have "\<dots> = s ! (k - length pre)"
        by (simp add: nth_append)
      finally have "name ! k = s ! (k - length pre)" .
      moreover from kk have "s ! (k - length pre) \<in> set s" by simp
      ultimately show "\<exists>x \<in> set s. x \<noteq> CHR ''.''" using k(3)
        by (intro bexI [of _ "s ! (k - length pre)"]) simp_all
    next
      assume "\<exists>x \<in> set s. x \<noteq> CHR ''.''"
      then obtain j where j: "j < length s" "s ! j \<noteq> CHR ''.''"
        by (auto simp: in_set_conv_nth)
      with name have "name ! (length pre + j) = s ! j" by (simp add: nth_append)
      with j show "\<exists>k. length pre \<le> k \<and> k < length pre + length s \<and> name ! k \<noteq> CHR ''.''"
        by (intro exI [of _ "length pre + j"]) simp
    qed
    from si have si': "nat (rfind sep name + 1) = length pre" by simp
    from di have di': "nat (rfind (CHR ''.'') name) = length pre + length s" by simp
    have scan: "splitext_scan name (length pre) (length pre + length s)
                = (if \<exists>x \<in> set s. x \<noteq> CHR ''.''
                   then Some (take (length pre + length s) name, CHR ''.'' # e) else None)"
      by (simp only: splitext_scan_result ex dr)
    have "splitext name
          = (if rfind (CHR ''.'') name > rfind sep name
             then (case splitext_scan name (length pre) (length pre + length s) of
                     Some r \<Rightarrow> r | None \<Rightarrow> (name, []))
             else (name, []))"
      by (simp only: splitext_def Let_def si' di')
    with gt have "splitext name
          = (case splitext_scan name (length pre) (length pre + length s) of
               Some r \<Rightarrow> r | None \<Rightarrow> (name, []))"
      by (simp only: if_True)
    then have sp: "splitext name
          = (case (if \<exists>x \<in> set s. x \<noteq> CHR ''.''
                   then Some (take (length pre + length s) name, CHR ''.'' # e) else None) of
               Some r \<Rightarrow> r | None \<Rightarrow> (name, []))"
      by (simp only: scan)
    have ext: "extension name = (if \<exists>x \<in> set s. x \<noteq> CHR ''.'' then CHR ''.'' # e else [])"
      unfolding extension_def Let_def b_def [symmetric] bld fld using True by simp
    show ?thesis
    proof (cases "\<exists>x \<in> set s. x \<noteq> CHR ''.''")
      case nd: True
      with sp have "splitext name = (take (length pre + length s) name, CHR ''.'' # e)"
        by (simp only: if_True option.case)
      then have "snd (splitext name) = CHR ''.'' # e" by (simp only: snd_conv)
      with ext nd show ?thesis by (simp only: if_True)
    next
      case od: False
      with sp have "splitext name = (name, [])"
        by (simp only: if_False option.case)
      then have "snd (splitext name) = []" by (simp only: snd_conv)
      with ext od show ?thesis by (simp only: if_False)
    qed
  qed
qed

section \<open>Saving\<close>

lemma map_of_filter_other:
  "k \<noteq> l \<Longrightarrow> map_of (filter (\<lambda>(q, _). q \<noteq> l) xs) k = map_of xs k"
  by (induction xs) auto

lemma map_of_filter_same: "map_of (filter (\<lambda>(q, _). q \<noteq> l) xs) l = None"
  by (induction xs) auto

lemma node_at_put_node:
  "l \<noteq> [] \<Longrightarrow> node_at (put_node fs l n) k = (if k = l then Some n else node_at fs k)"
  by (simp add: node_at_def put_node_def map_of_filter_other)

lemma node_at_remove_node:
  "l \<noteq> [] \<Longrightarrow> node_at (remove_node fs l) k = (if k = l then None else node_at fs k)"
  by (simp add: node_at_def remove_node_def map_of_filter_other map_of_filter_same)

text \<open>
  \<open>_save\<close> in terms of the digest: the name it forms, looks up, returns when a file
  exists at its path and hands to \<open>FileSystemStorage._save\<close> otherwise.
\<close>

lemma CAStorage_save_digest:
  assumes "CAStorage_digest read_text dm fs c = Inr digest"
  shows "CAStorage_save read_text self dm fs name c =
           (let stored = (if keep_extension self then digest @ snd (splitext name) else digest)
            in case CAStorage_path self fs stored of
                 Inl e \<Rightarrow> Some (Inl e, fs)
               | Inr path \<Rightarrow>
                   if exists_path fs path then Some (Inr stored, fs)
                   else FileSystemStorage_save self fs stored c)"
  using assms by (simp add: CAStorage_save_def stored_name_def Let_def)

section \<open>Claims about save\<close>

text \<open>
  C1 says that two saves of the same content return the same stored name, with one
  file written. The code writes one file, but returns two names. Saving the bytes 1, 2,
  3 as \<open>photo.png\<close> into the empty file system writes the file at
  \<open>/data/06/.p/06.png\<close> and returns what \<open>FileSystemStorage._save\<close> returns, the path of
  the file relative to the root directory, \<open>06/.p/06.png\<close>; saving them again finds the
  file, writes nothing and returns the stored name, \<open>06.png\<close>. The first of the two is
  not a name of the storage: \<open>path\<close> takes \<open>06.png\<close> to the file, and shards
  \<open>06/.p/06.png\<close> once more, into a path outside the root directory, which it refuses.
\<close>

theorem save_twice_returns_two_names:
  "CAStorage_save ascii_text example_storage sum8 empty_fs ''photo.png'' example_content
     = Some (Inr ''06/.p/06.png'', example_fs)
   \<and> CAStorage_save ascii_text example_storage sum8 example_fs ''photo.png'' example_content
     = Some (Inr ''06.png'', example_fs)
   \<and> ''06/.p/06.png'' \<noteq> ''06.png''
   \<and> writes example_fs = writes empty_fs + 1
   \<and> CAStorage_path example_storage example_fs ''06.png'' = Inr ''/data/06/.p/06.png''
   \<and> exists_path example_fs ''/data/06/.p/06.png''
   \<and> CAStorage_path example_storage example_fs ''06/.p/06.png'' = Inl SuspiciousFileOperation"
  by code_simp

text \<open>
  C7 (as amended). For every name and every content that has a digest, the stored name
  that save forms is the digest with the extension of the original name appended when
  \<open>keep_extension\<close> is enabled: the text from the last \<open>.\<close> of the last path component
  on, the dot included, and nothing when that component has no dot or has only dots
  before its last dot. When \<open>keep_extension\<close> is disabled the stored name is exactly the
  digest. The stored name is the name whose path save looks up; save returns it when a
  file exists there, and otherwise passes it to \<open>FileSystemStorage._save\<close> as the name to
  write.
\<close>

theorem save_stored_name_extension:
  assumes "CAStorage_digest read_text dm fs c = Inr digest"
    and "stored = (if keep_extension self then digest @ extension name else digest)"
  shows "stored_name read_text self dm fs name c = Inr stored
         \<and> CAStorage_save read_text self dm fs name c =
             (case CAStorage_path self fs stored of
                Inl e \<Rightarrow> Some (Inl e, fs)
              | Inr path \<Rightarrow>
                  if exists_path fs path then Some (Inr stored, fs)
                  else FileSystemStorage_save self fs stored c)"
proof
  from assms show "stored_name read_text self dm fs name c = Inr stored"
    by (simp add: stored_name_def snd_splitext)
  from assms(2) have "(if keep_extension self then digest @ snd (splitext name) else digest)
                      = stored"
    by (simp add: snd_splitext)
  with CAStorage_save_digest [OF assms(1), of self name]
  show "CAStorage_save read_text self dm fs name c =
          (case CAStorage_path self fs stored of
             Inl e \<Rightarrow> Some (Inl e, fs)
           | Inr path \<Rightarrow>
               if exists_path fs path then Some (Inr stored, fs)
               else FileSystemStorage_save self fs stored c)"
    by (simp only: Let_def)
qed

text \<open>
  C7 in the example, with \<open>keep_extension\<close> enabled: \<open>photo.png\<close> with the digest \<open>06\<close>
  has the stored name \<open>06.png\<close>, which save returns as the file is there. With
  \<open>keep_extension\<close> disabled the stored name is \<open>06\<close>.
\<close>

theorem save_stored_name_extension_witness:
  "CAStorage_digest ascii_text sum8 example_fs example_content = Inr ''06''
   \<and> keep_extension example_storage
   \<and> ''06'' @ extension ''photo.png'' = ''06.png''
   \<and> stored_name ascii_text example_storage sum8 example_fs ''photo.png'' example_content
       = Inr ''06.png''
   \<and> CAStorage_path example_storage example_fs ''06.png'' = Inr ''/data/06/.p/06.png''
   \<and> exists_path example_fs ''/data/06/.p/06.png''
   \<and> CAStorage_save ascii_text example_storage sum8 example_fs ''photo.png'' example_content
       = Some (Inr ''06.png'', example_fs)
   \<and> CAStorage_save ascii_text (example_storage\<lparr>keep_extension := False\<rparr>) sum8 bare_fs
        ''photo.png'' example_content
       = Some (Inr ''06'', bare_fs)"
proof -
  have d: "CAStorage_digest ascii_text sum8 example_fs example_content = Inr ''06''"
    by code_simp
  have keep: "keep_extension example_storage"
    by (simp add: example_storage_def)
  have ext: "''06'' @ extension ''photo.png'' = ''06.png''"
    by code_simp
  have p: "CAStorage_path example_storage example_fs ''06.png'' = Inr ''/data/06/.p/06.png''"
    by code_simp
  have ex: "exists_path example_fs ''/data/06/.p/06.png''"
    by code_simp
  from keep ext
  have s: "''06.png'' = (if keep_extension example_storage then ''06'' @ extension ''photo.png''
                         else ''06'')"
    by (simp only: if_True)
  note t = save_stored_name_extension [OF d s]
  from t have n: "stored_name ascii_text example_storage sum8 example_fs ''photo.png''
                    example_content = Inr ''06.png''"
    by (rule conjunct1)
  from t have "CAStorage_save ascii_text example_storage sum8 example_fs ''photo.png''
                 example_content
               = (case CAStorage_path example_storage example_fs ''06.png'' of
                    Inl e \<Rightarrow> Some (Inl e, example_fs)
                  | Inr path \<Rightarrow>
                      if exists_path example_fs path then Some (Inr ''06.png'', example_fs)
                      else FileSystemStorage_save example_storage example_fs ''06.png''
                             example_content)"
    by (rule conjunct2)
  with p ex have r: "CAStorage_save ascii_text example_storage sum8 example_fs ''photo.png''
                       example_content = Some (Inr ''06.png'', example_fs)"
    by (simp only: sum.case if_True)
  have off: "CAStorage_save ascii_text (example_storage\<lparr>keep_extension := False\<rparr>) sum8 bare_fs
               ''photo.png'' example_content = Some (Inr ''06'', bare_fs)"
    by code_simp
  from d keep ext n p ex r off show ?thesis by (intro conjI)
qed

text \<open>
  C7 as stated takes the text after the last dot of the last component as the
  extension whenever there is a dot. For the name \<open>.bashrc\<close> that text is \<open>.bashrc\<close>,
  and the stored name would be \<open>06.bashrc\<close>; \<open>splitext\<close> counts the leading dot as part
  of the root, the extension is empty, and the stored name is \<open>06\<close>: save finds the
  file stored as \<open>06\<close> and returns that name. Into the empty file system it writes
  the file at \<open>/data/06/06\<close> and returns \<open>06/06\<close>, as in C1.
\<close>

theorem save_extension_counterexample:
  "extension_as_specified ''.bashrc'' = ''.bashrc''
   \<and> keep_extension example_storage
   \<and> CAStorage_digest ascii_text sum8 bare_fs example_content = Inr ''06''
   \<and> CAStorage_save ascii_text example_storage sum8 bare_fs ''.bashrc'' example_content
       = Some (Inr ''06'', bare_fs)
   \<and> ''06'' \<noteq> ''06'' @ extension_as_specified ''.bashrc''
   \<and> CAStorage_save ascii_text example_storage sum8 empty_fs ''.bashrc'' example_content
       = Some (Inr ''06/06'', bare_fs)
   \<and> ''06/06'' \<noteq> ''06'' @ extension_as_specified ''.bashrc''"
  by code_simp

section \<open>Resolved paths\<close>

text \<open>
  The path string of a location: the normalised absolute path that names it, as
  \<open>CAStorage.path\<close> returns them. A proper name is one that a directory entry can
  have.
\<close>

definition path_of :: "location \<Rightarrow> string" where
  "path_of loc = (if loc = [] then [sep] else concat (map (\<lambda>name. sep # name) loc))"

definition proper :: "string \<Rightarrow> bool" where
  "proper name \<longleftrightarrow> name \<noteq> [] \<and> name \<noteq> ''.'' \<and> name \<noteq> ''..'' \<and> sep \<notin> set name"

text \<open>Every directory from the root directory down to a location is there.\<close>

definition dirs_down_to :: "filesystem \<Rightarrow> location \<Rightarrow> bool" where
  "dirs_down_to fs loc = list_all (\<lambda>l. node_at fs l = Some Dir) (prefixes loc)"

text \<open>
  The pruning, told on locations: from the directory \<open>root @ below\<close> upward, remove
  the directory while it is empty and is not the root.
\<close>

function prune_up :: "filesystem \<Rightarrow> location \<Rightarrow> string list \<Rightarrow> filesystem" where
  "prune_up fs root below =
     (if below = [] \<or> children fs (root @ below) \<noteq> [] then fs
      else prune_up (remove_node fs (root @ below)) root (butlast below))"
  by pat_completeness auto
termination
  by (relation "measure (\<lambda>(fs, root, below). length below)") auto

lemma split_on_no_sep: "c \<notin> set w \<Longrightarrow> split_on c w = [w]"
  by (induction w) auto

lemma split_on_append_sep: "c \<notin> set w \<Longrightarrow> split_on c (w @ c # r) = w # split_on c r"
  by (induction w) auto

lemma split_on_names:
  "\<forall>n \<in> set (w # names). sep \<notin> set n
   \<Longrightarrow> split_on sep (w @ concat (map (\<lambda>name. sep # name) names)) = w # names"
proof (induction names arbitrary: w)
  case Nil
  then show ?case by (simp add: split_on_no_sep)
next
  case (Cons n names)
  then have "split_on sep (n @ concat (map (\<lambda>name. sep # name) names)) = n # names"
    by simp
  moreover from Cons.prems have "sep \<notin> set w" by simp
  ultimately show ?case by (simp add: split_on_append_sep)
qed

lemma split_on_path_of:
  assumes "\<forall>n \<in> set loc. proper n"
  shows "split_on sep (path_of loc) = [] # (if loc = [] then [[]] else loc)"
proof (cases loc)
  case Nil
  then show ?thesis by (simp add: path_of_def)
next
  case (Cons n names)
  with assms have "\<forall>m \<in> set (n # names). sep \<notin> set m" by (simp add: proper_def)
  then have "split_on sep (n @ concat (map (\<lambda>name. sep # name) names)) = n # names"
    by (rule split_on_names)
  with Cons show ?thesis by (simp add: path_of_def)
qed

lemma step_proper: "proper n \<Longrightarrow> step loc n = loc @ [n]"
  by (simp add: step_def proper_def)

lemma walk_proper:
  assumes "\<forall>n \<in> set names. proper n"
    and "\<forall>l. prefix loc l \<and> strict_prefix l (loc @ names) \<longrightarrow> node_at fs l = Some Dir"
  shows "walk fs loc names = Inr (loc @ names)"
  using assms
proof (induction names arbitrary: loc)
  case Nil
  then show ?case by simp
next
  case (Cons n names)
  have "prefix loc loc \<and> strict_prefix loc (loc @ n # names)"
    by (simp add: strict_prefix_def)
  with Cons.prems(2) have here: "node_at fs loc = Some Dir" by blast
  from Cons.prems(1) have n: "proper n" and rest: "\<forall>m \<in> set names. proper m" by simp_all
  have "\<forall>l. prefix (loc @ [n]) l \<and> strict_prefix l ((loc @ [n]) @ names)
            \<longrightarrow> node_at fs l = Some Dir"
  proof (intro allI impI)
    fix l
    assume a: "prefix (loc @ [n]) l \<and> strict_prefix l ((loc @ [n]) @ names)"
    then have "prefix loc l" by (auto dest: append_prefixD)
    with a have "prefix loc l \<and> strict_prefix l (loc @ n # names)" by simp
    with Cons.prems(2) show "node_at fs l = Some Dir" by blast
  qed
  with rest have "walk fs (loc @ [n]) names = Inr ((loc @ [n]) @ names)"
    by (rule Cons.IH)
  with here n show ?case by (simp add: step_proper)
qed

lemma dirs_down_to_prefix: "dirs_down_to fs loc \<Longrightarrow> prefix l loc \<Longrightarrow> node_at fs l = Some Dir"
  by (simp add: dirs_down_to_def list_all_iff in_set_prefixes)

lemma dirs_down_to_iff: "dirs_down_to fs loc \<longleftrightarrow> (\<forall>l. prefix l loc \<longrightarrow> node_at fs l = Some Dir)"
  by (auto simp: dirs_down_to_def list_all_iff in_set_prefixes)

text \<open>
  A path of proper names resolves to its location when the directories down to the
  parent of that location are there.
\<close>

lemma resolve_path_of:
  assumes "\<forall>n \<in> set loc. proper n"
    and "\<forall>l. strict_prefix l loc \<longrightarrow> node_at fs l = Some Dir"
  shows "resolve fs (path_of loc) = Inr loc"
proof -
  have abs: "isabs (path_of loc)" and ne: "path_of loc \<noteq> []"
    by (cases loc; simp add: path_of_def isabs_def)+
  have root: "node_at fs [] = Some Dir" by (simp add: node_at_def)
  show ?thesis
  proof (cases "loc = []")
    case True
    with abs ne root show ?thesis
      by (simp add: resolve_def split_on_path_of step_def)
  next
    case False
    from assms have "walk fs [] loc = Inr ([] @ loc)"
      by (intro walk_proper) simp_all
    with False abs ne root assms(1) show ?thesis
      by (simp add: resolve_def split_on_path_of step_def)
  qed
qed

lemma last_concat_names:
  assumes "names \<noteq> []" and "\<forall>n \<in> set names. proper n"
  shows "concat (map (\<lambda>name. sep # name) names) \<noteq> []
         \<and> last (concat (map (\<lambda>name. sep # name) names)) \<noteq> sep"
  using assms
proof (induction names rule: rev_induct)
  case Nil
  then show ?case by simp
next
  case (snoc n names)
  then have "n \<noteq> []" and "sep \<notin> set n" by (simp_all add: proper_def)
  then have "last n \<noteq> sep" by (metis last_in_set)
  with \<open>n \<noteq> []\<close> show ?case by simp
qed

lemma rstrip_keeps:
  assumes "s \<noteq> []" and "last s \<noteq> c"
  shows "rstrip c (s @ [c]) = s"
proof -
  from assms(1) have r: "rev s = last s # rev (butlast s)" by (rule rev_last_first)
  from assms(2) have d: "dropWhile (\<lambda>x. x = c) (last s # rev (butlast s))
                         = last s # rev (butlast s)"
    by simp
  have "dropWhile (\<lambda>x. x = c) (rev s) = rev s"
    unfolding r by (rule d)
  then show ?thesis by (simp add: rstrip_def)
qed

lemma not_all_sep:
  assumes "s \<noteq> []" and "last s \<noteq> c"
  shows "s @ [c] \<noteq> replicate (length (s @ [c])) c"
proof
  assume "s @ [c] = replicate (length (s @ [c])) c"
  then have "set (s @ [c]) = set (replicate (length (s @ [c])) c)" by (rule arg_cong)
  then have "set s \<subseteq> {c}" by auto
  moreover from assms(1) have "last s \<in> set s" by (rule last_in_set)
  ultimately show False using assms(2) by auto
qed

lemma dirname_path_of:
  assumes "\<forall>n \<in> set (loc @ [name]). proper n"
  shows "dirname (path_of (loc @ [name])) = path_of loc"
proof -
  let ?P = "concat (map (\<lambda>n. sep # n) loc)"
  from assms have nm: "sep \<notin> set name" by (simp add: proper_def)
  have p: "path_of (loc @ [name]) = ?P @ sep # name" by (simp add: path_of_def)
  from nm have "rfind sep (?P @ sep # name) = int (length ?P)"
    by (rule rfind_last_occurrence)
  then have i: "nat (rfind sep (?P @ sep # name) + 1) = length ?P + 1" by simp
  have head: "take (length ?P + 1) (?P @ sep # name) = ?P @ [sep]" by simp
  have d: "dirname (?P @ sep # name)
           = (if ?P @ [sep] \<noteq> [] \<and> ?P @ [sep] \<noteq> replicate (length (?P @ [sep])) sep
              then rstrip sep (?P @ [sep]) else ?P @ [sep])"
    by (simp only: dirname_def Let_def i head)
  show ?thesis
  proof (cases "loc = []")
    case True
    with d p show ?thesis by (simp add: path_of_def)
  next
    case False
    with assms have l: "?P \<noteq> [] \<and> last ?P \<noteq> sep"
      by (intro last_concat_names) simp_all
    then have "?P @ [sep] \<noteq> replicate (length (?P @ [sep])) sep"
      by (intro not_all_sep) simp_all
    moreover from l have "rstrip sep (?P @ [sep]) = ?P"
      by (intro rstrip_keeps) simp_all
    ultimately have "dirname (?P @ sep # name) = ?P"
      using d by (simp only: if_True simp_thms append_is_Nil_conv list.distinct)
    with p False show ?thesis by (simp add: path_of_def)
  qed
qed

section \<open>Pruning\<close>

lemma stat_path_of:
  assumes "\<forall>n \<in> set loc. proper n" and "dirs_down_to fs loc"
  shows "stat fs (path_of loc) = Inr loc"
proof -
  from assms(2) have "\<forall>l. strict_prefix l loc \<longrightarrow> node_at fs l = Some Dir"
    by (auto simp: dirs_down_to_iff strict_prefix_def)
  with assms(1) have "resolve fs (path_of loc) = Inr loc" by (rule resolve_path_of)
  moreover from assms(2) have "node_at fs loc = Some Dir"
    by (simp add: dirs_down_to_iff)
  ultimately show ?thesis by (simp add: stat_def)
qed

lemma listdir_path_of:
  assumes "\<forall>n \<in> set loc. proper n" and "dirs_down_to fs loc"
  shows "listdir fs (path_of loc) = Inr (children fs loc)"
proof -
  from assms(2) have "\<forall>l. strict_prefix l loc \<longrightarrow> node_at fs l = Some Dir"
    by (auto simp: dirs_down_to_iff strict_prefix_def)
  with assms(1) have "resolve fs (path_of loc) = Inr loc" by (rule resolve_path_of)
  moreover from assms(2) have "node_at fs loc = Some Dir"
    by (simp add: dirs_down_to_iff)
  ultimately show ?thesis by (simp add: listdir_def)
qed

lemma rmdir_path_of:
  assumes "\<forall>n \<in> set loc. proper n" and "dirs_down_to fs loc"
    and "loc \<noteq> []" and "children fs loc = []"
  shows "rmdir fs (path_of loc) = Inr (remove_node fs loc)"
proof -
  from assms(2) have "\<forall>l. strict_prefix l loc \<longrightarrow> node_at fs l = Some Dir"
    by (auto simp: dirs_down_to_iff strict_prefix_def)
  with assms(1) have "resolve fs (path_of loc) = Inr loc" by (rule resolve_path_of)
  moreover from assms(2) have "node_at fs loc = Some Dir"
    by (simp add: dirs_down_to_iff)
  ultimately show ?thesis using assms(3,4) by (simp add: rmdir_def)
qed

lemma dirs_down_to_remove_node:
  assumes "dirs_down_to fs loc" and "\<not> prefix gone loc" and "gone \<noteq> []"
  shows "dirs_down_to (remove_node fs gone) loc"
  unfolding dirs_down_to_iff
proof (intro allI impI)
  fix l
  assume l: "prefix l loc"
  with assms(2) have "l \<noteq> gone" by auto
  with assms(3) have "node_at (remove_node fs gone) l = node_at fs l"
    by (simp add: node_at_remove_node)
  with assms(1) l show "node_at (remove_node fs gone) l = Some Dir"
    by (simp add: dirs_down_to_iff)
qed

lemma dirs_down_to_shorter: "dirs_down_to fs (a @ b) \<Longrightarrow> dirs_down_to fs a"
  unfolding dirs_down_to_iff by (intro allI impI) (simp add: prefix_prefix)

lemma longer_not_prefix: "\<not> prefix (a @ b @ [x]) (a @ b)"
proof
  assume "prefix (a @ b @ [x]) (a @ b)"
  then have "length (a @ b @ [x]) \<le> length (a @ b)" by (rule prefix_length_le)
  then show False by simp
qed

lemma prune_up_stop: "below = [] \<or> children fs (root @ below) \<noteq> [] \<Longrightarrow> prune_up fs root below = fs"
  by (subst prune_up.simps) simp

lemma prune_up_go:
  "below \<noteq> [] \<Longrightarrow> children fs (root @ below) = []
   \<Longrightarrow> prune_up fs root below = prune_up (remove_node fs (root @ below)) root (butlast below)"
  by (subst prune_up.simps) simp

lemma prune_loop_stop: "prune_turn fs rt rs d = Inl res \<Longrightarrow> prune_loop fs rt rs d = res"
  by (subst prune_loop.simps) simp

lemma prune_loop_go:
  "prune_turn fs rt rs d = Inr fs' \<Longrightarrow> prune_loop fs rt rs d = prune_loop fs' rt rs (dirname d)"
  by (subst prune_loop.simps) simp

text \<open>
  On a resolved path below the root, the loop over the strings does what \<open>prune_up\<close>
  does on the locations.
\<close>

lemma prune_loop_path_of:
  assumes "r \<noteq> []"
    and "\<forall>n \<in> set (root @ below). proper n"
    and "dirs_down_to fs (root @ below)"
  shows "prune_loop fs (Some r) (Some root) (path_of (root @ below))
         = (None, prune_up fs root below)"
  using assms(2,3)
proof (induction below arbitrary: fs rule: rev_induct)
  case Nil
  then have "stat fs (path_of root) = Inr root" by (simp add: stat_path_of)
  with assms(1) have "prune_turn fs (Some r) (Some root) (path_of root) = Inl (None, fs)"
    by (simp add: prune_turn_def truthy_def samestat_def)
  then have "prune_loop fs (Some r) (Some root) (path_of root) = (None, fs)"
    by (rule prune_loop_stop)
  then show ?case by (simp add: prune_up_stop)
next
  case (snoc d below)
  let ?loc = "root @ below @ [d]"
  from snoc.prems have st: "stat fs (path_of ?loc) = Inr ?loc"
    by (intro stat_path_of) simp_all
  from snoc.prems have ls: "listdir fs (path_of ?loc) = Inr (children fs ?loc)"
    by (intro listdir_path_of) simp_all
  have neq: "root \<noteq> ?loc" by simp
  show ?case
  proof (cases "children fs ?loc = []")
    case False
    with st ls neq assms(1)
    have "prune_turn fs (Some r) (Some root) (path_of ?loc) = Inl (None, fs)"
      by (simp add: prune_turn_def prune_body_def truthy_def samestat_def)
    then have "prune_loop fs (Some r) (Some root) (path_of ?loc) = (None, fs)"
      by (rule prune_loop_stop)
    with False show ?thesis by (simp add: prune_up_stop)
  next
    case True
    let ?fs' = "remove_node fs ?loc"
    from snoc.prems True have "rmdir fs (path_of ?loc) = Inr ?fs'"
      by (intro rmdir_path_of) simp_all
    with st ls neq assms(1) True
    have "prune_turn fs (Some r) (Some root) (path_of ?loc) = Inr ?fs'"
      by (simp add: prune_turn_def prune_body_def truthy_def samestat_def)
    then have a: "prune_loop fs (Some r) (Some root) (path_of ?loc)
               = prune_loop ?fs' (Some r) (Some root) (dirname (path_of ?loc))"
      by (rule prune_loop_go)
    from snoc.prems(1) have "dirname (path_of ((root @ below) @ [d])) = path_of (root @ below)"
      by (intro dirname_path_of) simp
    then have b: "dirname (path_of ?loc) = path_of (root @ below)" by simp
    have c: "prune_loop ?fs' (Some r) (Some root) (path_of (root @ below))
                   = (None, prune_up ?fs' root below)"
    proof (rule snoc.IH)
      from snoc.prems(1) show "\<forall>n \<in> set (root @ below). proper n" by simp
      from snoc.prems(2) have "dirs_down_to fs ((root @ below) @ [d])" by simp
      then have "dirs_down_to fs (root @ below)" by (rule dirs_down_to_shorter)
      moreover have "\<not> prefix ?loc (root @ below)" by (rule longer_not_prefix)
      ultimately show "dirs_down_to ?fs' (root @ below)"
        by (intro dirs_down_to_remove_node) simp_all
    qed
    from True have d: "prune_up fs root (below @ [d]) = prune_up ?fs' root below"
      using prune_up_go [of "below @ [d]" fs root] by simp
    show ?thesis by (simp only: a b c d)
  qed
qed

lemma children_empty_iff:
  "children fs loc = [] \<longleftrightarrow> filter (\<lambda>(l, _). l \<noteq> [] \<and> butlast l = loc) (nodes fs) = []"
  by (simp add: children_def)

lemma children_remove_node_empty:
  "children fs loc = [] \<Longrightarrow> children (remove_node fs gone) loc = []"
  by (auto simp: children_empty_iff remove_node_def filter_empty_conv)

lemma children_prune_up_empty:
  "children fs loc = [] \<Longrightarrow> children (prune_up fs root below) loc = []"
proof (induction fs root below rule: prune_up.induct)
  case (1 fs root below)
  show ?case
  proof (cases "below = [] \<or> children fs (root @ below) \<noteq> []")
    case True
    then have "prune_up fs root below = fs" by (rule prune_up_stop)
    with "1.prems" show ?thesis by (simp only:)
  next
    case False
    then have e: "prune_up fs root below
                  = prune_up (remove_node fs (root @ below)) root (butlast below)"
      by (intro prune_up_go) simp_all
    from "1.prems" have "children (remove_node fs (root @ below)) loc = []"
      by (rule children_remove_node_empty)
    with False have "children (prune_up (remove_node fs (root @ below)) root (butlast below)) loc = []"
      by (rule "1.IH")
    with e show ?thesis by (simp only:)
  qed
qed

text \<open>
  What \<open>prune_up\<close> leaves: the walk upward stops at the root or at the first directory
  that is not empty; the directories passed on the way are gone, and they were empty;
  every other node is as it was.
\<close>

lemma prune_up_result:
  "\<exists>stop. prefix root stop \<and> prefix stop (root @ below)
     \<and> (\<forall>l. node_at (prune_up fs root below) l
             = (if strict_prefix stop l \<and> prefix l (root @ below) then None else node_at fs l))
     \<and> (stop = root \<or> children (prune_up fs root below) stop \<noteq> [])
     \<and> (\<forall>l. strict_prefix stop l \<and> prefix l (root @ below)
             \<longrightarrow> children (prune_up fs root below) l = [])"
proof (induction fs root below rule: prune_up.induct)
  case (1 fs root below)
  show ?case
  proof (cases "below = [] \<or> children fs (root @ below) \<noteq> []")
    case True
    then have e: "prune_up fs root below = fs" by (rule prune_up_stop)
    have none: "\<not> (strict_prefix (root @ below) l \<and> prefix l (root @ below))" for l
    proof
      assume "strict_prefix (root @ below) l \<and> prefix l (root @ below)"
      then have "prefix (root @ below) l" and "root @ below \<noteq> l" and "prefix l (root @ below)"
        by (simp_all add: strict_prefix_def)
      then show False by (simp add: prefix_order.antisym)
    qed
    from True have stop: "root @ below = root \<or> children fs (root @ below) \<noteq> []" by auto
    show ?thesis
      unfolding e
    proof (intro exI [of _ "root @ below"] conjI allI impI)
      show "prefix root (root @ below)" by simp
      show "prefix (root @ below) (root @ below)" by simp
      show "node_at fs l = (if strict_prefix (root @ below) l \<and> prefix l (root @ below)
                            then None else node_at fs l)" for l
        using none [of l] by (simp only: if_False)
      from stop show "root @ below = root \<or> children fs (root @ below) \<noteq> []" .
      show "children fs l = []"
        if "strict_prefix (root @ below) l \<and> prefix l (root @ below)" for l
        using that none [of l] by (rule notE [rotated])
    qed
  next
    case False
    then have ne: "below \<noteq> []" and empty: "children fs (root @ below) = []" by simp_all
    define bl where "bl = butlast below"
    define gone where "gone = root @ below"
    define fs' where "fs' = remove_node fs gone"
    from ne have gone: "gone = (root @ bl) @ [last below]"
      by (simp add: gone_def bl_def)
    then have gne: "gone \<noteq> []" by simp
    from ne empty have e: "prune_up fs root below = prune_up fs' root bl"
      unfolding fs'_def gone_def bl_def by (rule prune_up_go)
    have "\<exists>stop. prefix root stop \<and> prefix stop (root @ bl)
            \<and> (\<forall>l. node_at (prune_up fs' root bl) l
                    = (if strict_prefix stop l \<and> prefix l (root @ bl) then None
                       else node_at fs' l))
            \<and> (stop = root \<or> children (prune_up fs' root bl) stop \<noteq> [])
            \<and> (\<forall>l. strict_prefix stop l \<and> prefix l (root @ bl)
                    \<longrightarrow> children (prune_up fs' root bl) l = [])"
      using "1.IH" [OF False] unfolding fs'_def gone_def bl_def .
    then obtain stop where s: "prefix root stop \<and> prefix stop (root @ bl)
            \<and> (\<forall>l. node_at (prune_up fs' root bl) l
                    = (if strict_prefix stop l \<and> prefix l (root @ bl) then None
                       else node_at fs' l))
            \<and> (stop = root \<or> children (prune_up fs' root bl) stop \<noteq> [])
            \<and> (\<forall>l. strict_prefix stop l \<and> prefix l (root @ bl)
                    \<longrightarrow> children (prune_up fs' root bl) l = [])" ..
    note s1 = s [THEN conjunct1]
      and s2 = s [THEN conjunct2, THEN conjunct1]
      and s3 = s [THEN conjunct2, THEN conjunct2, THEN conjunct1]
      and s4 = s [THEN conjunct2, THEN conjunct2, THEN conjunct2, THEN conjunct1]
      and s5 = s [THEN conjunct2, THEN conjunct2, THEN conjunct2, THEN conjunct2]
    from s2 have s2': "prefix stop gone" unfolding gone by (rule prefix_prefix)
    have "stop \<noteq> gone"
    proof
      assume "stop = gone"
      with s2 have "prefix (root @ bl @ [last below]) (root @ bl)" by (simp add: gone)
      then show False by (simp add: longer_not_prefix)
    qed
    with s2' have sg: "strict_prefix stop gone" by (simp add: strict_prefix_def)
    have pre: "prefix l gone \<longleftrightarrow> prefix l (root @ bl) \<or> l = gone" for l
      unfolding gone prefix_snoc by auto
    have n: "node_at fs' l = (if l = gone then None else node_at fs l)" for l
      unfolding fs'_def using gne by (rule node_at_remove_node)
    have t3: "\<forall>l. node_at (prune_up fs' root bl) l
                = (if strict_prefix stop l \<and> prefix l gone then None else node_at fs l)"
    proof
      fix l
      show "node_at (prune_up fs' root bl) l
            = (if strict_prefix stop l \<and> prefix l gone then None else node_at fs l)"
      proof (cases "l = gone")
        case True
        from s2 have "\<not> prefix gone (root @ bl)"
          unfolding gone using longer_not_prefix [of root bl "last below"] by simp
        with s3 [rule_format, of gone] n [of gone] sg s2'
        have "node_at (prune_up fs' root bl) gone
              = (if strict_prefix stop gone \<and> prefix gone gone then None else node_at fs gone)"
          by (simp only: simp_thms if_True if_False prefix_order.refl)
        with True show ?thesis by (simp only:)
      next
        case False
        with pre [of l] have "prefix l gone \<longleftrightarrow> prefix l (root @ bl)"
          by (simp only: simp_thms)
        with s3 [rule_format, of l] n [of l] False show ?thesis
          by (simp only: simp_thms if_False)
      qed
    qed
    have t5: "\<forall>l. strict_prefix stop l \<and> prefix l gone
                \<longrightarrow> children (prune_up fs' root bl) l = []"
    proof (intro allI impI)
      fix l
      assume a: "strict_prefix stop l \<and> prefix l gone"
      show "children (prune_up fs' root bl) l = []"
      proof (cases "l = gone")
        case True
        from empty have "children fs' gone = []"
          unfolding fs'_def gone_def by (rule children_remove_node_empty)
        then have "children (prune_up fs' root bl) gone = []"
          by (rule children_prune_up_empty)
        with True show ?thesis by (simp only:)
      next
        case False
        from a have sl: "strict_prefix stop l" and lg: "prefix l gone"
          by (rule conjunct1, rule conjunct2)
        from pre [of l] lg False have "prefix l (root @ bl)" by (simp only: simp_thms)
        with sl have "strict_prefix stop l \<and> prefix l (root @ bl)" by (rule conjI)
        with s5 [rule_format] show ?thesis .
      qed
    qed
    have final: "\<exists>stop. prefix root stop \<and> prefix stop gone
        \<and> (\<forall>l. node_at (prune_up fs' root bl) l
                = (if strict_prefix stop l \<and> prefix l gone then None else node_at fs l))
        \<and> (stop = root \<or> children (prune_up fs' root bl) stop \<noteq> [])
        \<and> (\<forall>l. strict_prefix stop l \<and> prefix l gone
                \<longrightarrow> children (prune_up fs' root bl) l = [])"
      using s1 s2' t3 s4 t5 by (intro exI [of _ stop] conjI)
    show ?thesis
      by (simp only: e gone_def [symmetric]) (rule final)
  qed
qed

lemma strict_prefix_snocD: "strict_prefix l (ys @ [y]) \<Longrightarrow> prefix l ys"
  unfolding strict_prefix_def prefix_snoc by auto

lemma unlink_path_of:
  assumes "\<forall>n \<in> set loc. proper n"
    and "\<forall>l. strict_prefix l loc \<longrightarrow> node_at fs l = Some Dir"
    and "node_at fs loc = Some (File data)"
  shows "unlink fs (path_of loc) = Inr (remove_node fs loc)"
proof -
  from assms(1,2) have "resolve fs (path_of loc) = Inr loc" by (rule resolve_path_of)
  with assms(3) show ?thesis by (simp add: unlink_def)
qed

lemma rm_file_path_of:
  assumes "r \<noteq> []" and "stat fs r = Inr root"
    and "\<forall>n \<in> set (root @ below @ [f]). proper n"
    and "dirs_down_to fs (root @ below)"
    and "node_at fs (root @ below @ [f]) = Some (File data)"
  shows "rm_file_and_empty_parents fs (path_of (root @ below @ [f])) (Some r)
         = (None, prune_up (remove_node fs (root @ below @ [f])) root below)"
proof -
  let ?file = "root @ below @ [f]"
  let ?fs1 = "remove_node fs ?file"
  have "\<forall>l. strict_prefix l ?file \<longrightarrow> node_at fs l = Some Dir"
  proof (intro allI impI)
    fix l
    assume "strict_prefix l ?file"
    then have "strict_prefix l ((root @ below) @ [f])" by simp
    then have "prefix l (root @ below)" by (rule strict_prefix_snocD)
    with assms(4) show "node_at fs l = Some Dir" by (rule dirs_down_to_prefix)
  qed
  with assms(3,5) have u: "unlink fs (path_of ?file) = Inr ?fs1"
    by (intro unlink_path_of) simp_all
  from assms(3) have "dirname (path_of ((root @ below) @ [f])) = path_of (root @ below)"
    by (intro dirname_path_of) simp
  then have d: "dirname (path_of ?file) = path_of (root @ below)" by simp
  have "dirs_down_to ?fs1 (root @ below)"
    using assms(4) by (intro dirs_down_to_remove_node longer_not_prefix) simp_all
  with assms(1,3) have l: "prune_loop ?fs1 (Some r) (Some root) (path_of (root @ below))
                           = (None, prune_up ?fs1 root below)"
    by (intro prune_loop_path_of) simp_all
  from assms(1,2) have t: "(if truthy (Some r) then map_sum id Some (stat fs (the (Some r)))
                            else Inr None) = Inr (Some root)"
    by (simp add: truthy_def)
  have "rm_file_and_empty_parents fs (path_of ?file) (Some r)
        = (case unlink fs (path_of ?file) of
             Inl e \<Rightarrow> (Some e, fs)
           | Inr fs' \<Rightarrow> prune_loop fs' (Some r) (Some root) (dirname (path_of ?file)))"
    by (simp only: rm_file_and_empty_parents_def t sum.case)
  also have "\<dots> = prune_loop ?fs1 (Some r) (Some root) (dirname (path_of ?file))"
    by (simp only: u sum.case)
  also have "\<dots> = (None, prune_up ?fs1 root below)"
    by (simp only: d l)
  finally show ?thesis .
qed

text \<open>Whatever the file name, only the file and directories other than the root go.\<close>

lemma unlink_result:
  assumes "unlink fs path = Inr fs'"
  shows "\<exists>l data. node_at fs l = Some (File data) \<and> l \<noteq> [] \<and> fs' = remove_node fs l"
proof -
  from assms obtain l data where "node_at fs l = Some (File data)" and "fs' = remove_node fs l"
    by (auto simp: unlink_def split: sum.splits option.splits node.splits)
  moreover from this(1) have "l \<noteq> []" by (auto simp: node_at_def)
  ultimately show ?thesis by blast
qed

lemma prune_body_result:
  "prune_body fs d = Inl (e, fs') \<Longrightarrow> fs' = fs"
  by (auto simp: prune_body_def split: sum.splits if_splits)

lemma prune_turn_over: "prune_turn fs rt rs d = Inl (e, fs') \<Longrightarrow> fs' = fs"
  by (auto simp: prune_turn_def dest: prune_body_result split: sum.splits if_splits)

lemma prune_turn_on:
  assumes "truthy rt" and "prune_turn fs rt (Some root) d = Inr fs'"
  shows "\<exists>l. l \<noteq> root \<and> l \<noteq> [] \<and> fs' = remove_node fs l"
proof -
  from assms obtain st where st: "stat fs d = Inr st" and ne: "st \<noteq> root"
    and b: "prune_body fs d = Inr fs'"
    by (auto simp: prune_turn_def samestat_def split: sum.splits if_splits)
  from b have r: "rmdir fs d = Inr fs'" by (rule prune_body_goes_on)
  from st have "resolve fs d = Inr st"
    by (auto simp: stat_def split: sum.splits option.splits)
  with r have "st \<noteq> [] \<and> fs' = remove_node fs st"
    by (auto simp: rmdir_def split: option.splits node.splits if_splits)
  with ne show ?thesis by blast
qed

lemma prune_loop_keeps_root:
  assumes "truthy rt" and "rs = Some root"
  shows "node_at (snd (prune_loop fs rt rs d)) root = node_at fs root"
  using assms
proof (induction fs rt rs d rule: prune_loop.induct)
  case (1 fs rt rs directory)
  show ?case
  proof (cases "prune_turn fs rt rs directory")
    case (Inl res)
    then have e: "prune_loop fs rt rs directory = res" by (rule prune_loop_stop)
    obtain err fs0 where res: "res = (err, fs0)" by (cases res)
    with Inl have "prune_turn fs rt rs directory = Inl (err, fs0)" by (simp only:)
    then have "fs0 = fs" by (rule prune_turn_over)
    with res show ?thesis by (simp only: e snd_conv)
  next
    case (Inr fs')
    then have e: "prune_loop fs rt rs directory = prune_loop fs' rt rs (dirname directory)"
      by (rule prune_loop_go)
    from Inr "1.prems"(2) have "prune_turn fs rt (Some root) directory = Inr fs'"
      by (simp only:)
    with "1.prems"(1) have "\<exists>l. l \<noteq> root \<and> l \<noteq> [] \<and> fs' = remove_node fs l"
      by (rule prune_turn_on)
    then obtain l where "l \<noteq> root" and "l \<noteq> []" and "fs' = remove_node fs l"
      by (elim exE conjE)
    then have "node_at fs' root = node_at fs root"
      by (simp add: node_at_remove_node)
    moreover from Inr "1.prems" have "node_at (snd (prune_loop fs' rt rs (dirname directory))) root
                            = node_at fs' root"
      by (rule "1.IH")
    ultimately show ?thesis by (simp only: e)
  qed
qed

lemma rm_file_keeps_root:
  assumes "r \<noteq> []" and "stat fs r = Inr root" and "node_at fs root = Some Dir"
  shows "node_at (snd (rm_file_and_empty_parents fs filename (Some r))) root = Some Dir"
proof -
  from assms(1) have tr: "truthy (Some r)" by (simp add: truthy_def)
  with assms(2) have t: "(if truthy (Some r) then map_sum id Some (stat fs (the (Some r)))
                          else Inr None) = Inr (Some root)"
    by simp
  show ?thesis
  proof (cases "unlink fs filename")
    case (Inl e)
    have "rm_file_and_empty_parents fs filename (Some r) = (Some e, fs)"
      by (simp only: rm_file_and_empty_parents_def t Inl sum.case)
    with assms(3) show ?thesis by (simp only: snd_conv)
  next
    case (Inr fs1)
    then have "\<exists>l data. node_at fs l = Some (File data) \<and> l \<noteq> [] \<and> fs1 = remove_node fs l"
      by (rule unlink_result)
    then obtain l data where "node_at fs l = Some (File data)" and "l \<noteq> []"
      and "fs1 = remove_node fs l"
      by (elim exE conjE)
    with assms(3) have "node_at fs1 root = Some Dir"
      by (auto simp: node_at_remove_node)
    moreover have "node_at (snd (prune_loop fs1 (Some r) (Some root) (dirname filename))) root
                   = node_at fs1 root"
      using tr refl by (rule prune_loop_keeps_root)
    moreover have "rm_file_and_empty_parents fs filename (Some r)
                   = prune_loop fs1 (Some r) (Some root) (dirname filename)"
      by (simp only: rm_file_and_empty_parents_def t Inr sum.case)
    ultimately show ?thesis by (simp only:)
  qed
qed

section \<open>The claim about pruning\<close>

text \<open>
  C6. Let the configured root be a path string that leads to a directory (whatever
  its spelling: the directory is compared by what \<open>stat\<close> says, not by its string).
  Then, for every file name, the root directory is still there after
  \<open>rm_file_and_empty_parents\<close>, however the call ends. And for the resolved path of a
  file that lies below the root: the call returns without an exception; the file is
  unlinked; walking upward from the file's directory, each directory that has become
  empty is removed, up to a place \<open>stop\<close>, which is the root or the first directory met
  that is not empty; the directories removed are exactly those between \<open>stop\<close> and
  the file, they are empty, and every other node of the file system is as it was.
\<close>

theorem remove_with_prune:
  assumes "r \<noteq> []" and "stat fs r = Inr root" and "node_at fs root = Some Dir"
  shows "node_at (snd (rm_file_and_empty_parents fs filename (Some r))) root = Some Dir
    \<and> ((\<forall>n \<in> set (root @ below @ [f]). proper n)
        \<and> dirs_down_to fs (root @ below)
        \<and> node_at fs (root @ below @ [f]) = Some (File data)
        \<and> filename = path_of (root @ below @ [f])
       \<longrightarrow> (\<exists>fs' stop.
              rm_file_and_empty_parents fs filename (Some r) = (None, fs')
              \<and> prefix root stop \<and> prefix stop (root @ below)
              \<and> (\<forall>l. node_at fs' l
                      = (if l = root @ below @ [f]
                            \<or> (strict_prefix stop l \<and> prefix l (root @ below))
                         then None else node_at fs l))
              \<and> (stop = root \<or> children fs' stop \<noteq> [])
              \<and> (\<forall>l. strict_prefix stop l \<and> prefix l (root @ below)
                      \<longrightarrow> children fs' l = [])))"
proof (intro conjI impI)
  from assms show "node_at (snd (rm_file_and_empty_parents fs filename (Some r))) root = Some Dir"
    by (rule rm_file_keeps_root)
next
  let ?file = "root @ below @ [f]"
  let ?fs1 = "remove_node fs ?file"
  let ?fs' = "prune_up ?fs1 root below"
  assume h: "(\<forall>n \<in> set ?file. proper n) \<and> dirs_down_to fs (root @ below)
             \<and> node_at fs ?file = Some (File data) \<and> filename = path_of ?file"
  note h1 = h [THEN conjunct1] and h2 = h [THEN conjunct2, THEN conjunct1]
    and h3 = h [THEN conjunct2, THEN conjunct2, THEN conjunct1]
    and h4 = h [THEN conjunct2, THEN conjunct2, THEN conjunct2]
  from assms(1,2) h1 h2 h3
  have "rm_file_and_empty_parents fs (path_of ?file) (Some r) = (None, ?fs')"
    by (rule rm_file_path_of)
  with h4 have run: "rm_file_and_empty_parents fs filename (Some r) = (None, ?fs')"
    by (simp only:)
  have n1: "node_at ?fs1 l = (if l = ?file then None else node_at fs l)" for l
    by (rule node_at_remove_node) simp
  obtain stop where s: "prefix root stop \<and> prefix stop (root @ below)
       \<and> (\<forall>l. node_at ?fs' l
               = (if strict_prefix stop l \<and> prefix l (root @ below) then None
                  else node_at ?fs1 l))
       \<and> (stop = root \<or> children ?fs' stop \<noteq> [])
       \<and> (\<forall>l. strict_prefix stop l \<and> prefix l (root @ below) \<longrightarrow> children ?fs' l = [])"
    using prune_up_result [of root below ?fs1] ..
  note s1 = s [THEN conjunct1]
    and s2 = s [THEN conjunct2, THEN conjunct1]
    and s3 = s [THEN conjunct2, THEN conjunct2, THEN conjunct1]
    and s4 = s [THEN conjunct2, THEN conjunct2, THEN conjunct2, THEN conjunct1]
    and s5 = s [THEN conjunct2, THEN conjunct2, THEN conjunct2, THEN conjunct2]
  have t3: "\<forall>l. node_at ?fs' l
              = (if l = ?file \<or> (strict_prefix stop l \<and> prefix l (root @ below))
                 then None else node_at fs l)"
  proof
    fix l
    show "node_at ?fs' l
          = (if l = ?file \<or> (strict_prefix stop l \<and> prefix l (root @ below))
             then None else node_at fs l)"
      using s3 [rule_format, of l] n1 [of l]
      by (cases "l = ?file"; cases "strict_prefix stop l \<and> prefix l (root @ below)")
        (simp_all only: simp_thms if_True if_False)
  qed
  from run s1 s2 t3 s4 s5
  show "\<exists>fs' stop.
          rm_file_and_empty_parents fs filename (Some r) = (None, fs')
          \<and> prefix root stop \<and> prefix stop (root @ below)
          \<and> (\<forall>l. node_at fs' l
                  = (if l = root @ below @ [f]
                        \<or> (strict_prefix stop l \<and> prefix l (root @ below))
                     then None else node_at fs l))
          \<and> (stop = root \<or> children fs' stop \<noteq> [])
          \<and> (\<forall>l. strict_prefix stop l \<and> prefix l (root @ below) \<longrightarrow> children fs' l = [])"
    by (intro exI [of _ ?fs'] exI [of _ stop] conjI)
qed

text \<open>
  C6 in the example, with the root spelled \<open>/data/\<close>: deleting the stored file removes
  \<open>/data/06/.p\<close> and \<open>/data/06\<close>, which have become empty, and stops at \<open>/data\<close>, which
  stays though it is empty now.
\<close>

theorem remove_with_prune_witness:
  "''/data/'' \<noteq> []
   \<and> stat example_fs ''/data/'' = Inr [''data'']
   \<and> node_at example_fs [''data''] = Some Dir
   \<and> list_all proper ([''data''] @ [''06'', ''.p''] @ [''06.png''])
   \<and> dirs_down_to example_fs ([''data''] @ [''06'', ''.p''])
   \<and> node_at example_fs ([''data''] @ [''06'', ''.p''] @ [''06.png'']) = Some (File [1, 2, 3])
   \<and> ''/data/06/.p/06.png'' = path_of ([''data''] @ [''06'', ''.p''] @ [''06.png''])
   \<and> node_at (snd (rm_file_and_empty_parents example_fs ''/data/06/.p/06.png'' (Some ''/data/'')))
        [''data''] = Some Dir
   \<and> fst (rm_file_and_empty_parents example_fs ''/data/06/.p/06.png'' (Some ''/data/'')) = None
   \<and> rm_file_and_empty_parents example_fs ''/data/06/.p/06.png'' (Some ''/data/'')
       = (None, \<lparr>nodes = [([''data''], Dir)], cwd = [], writes = 1\<rparr>)
   \<and> children \<lparr>nodes = [([''data''], Dir)], cwd = [], writes = 1\<rparr> [''data''] = []"
proof -
  have a1: "''/data/'' \<noteq> []" by simp
  have a2: "stat example_fs ''/data/'' = Inr [''data'']" by code_simp
  have a3: "node_at example_fs [''data''] = Some Dir" by code_simp
  have b0: "list_all proper ([''data''] @ [''06'', ''.p''] @ [''06.png''])" by code_simp
  then have b1: "\<forall>n \<in> set ([''data''] @ [''06'', ''.p''] @ [''06.png'']). proper n"
    by (simp only: list_all_iff)
  have b2: "dirs_down_to example_fs ([''data''] @ [''06'', ''.p''])" by code_simp
  have b3: "node_at example_fs ([''data''] @ [''06'', ''.p''] @ [''06.png''])
            = Some (File [1, 2, 3])"
    by code_simp
  have b4: "''/data/06/.p/06.png'' = path_of ([''data''] @ [''06'', ''.p''] @ [''06.png''])"
    by code_simp
  note t = remove_with_prune [OF a1 a2 a3, of "''/data/06/.p/06.png''" "[''06'', ''.p'']"
      "''06.png''" "[1, 2, 3]"]
  from t have c1: "node_at (snd (rm_file_and_empty_parents example_fs ''/data/06/.p/06.png''
                      (Some ''/data/''))) [''data''] = Some Dir"
    by (rule conjunct1)
  from t [THEN conjunct2, THEN mp, OF conjI [OF b1 conjI [OF b2 conjI [OF b3 b4]]]]
  obtain fs' where "rm_file_and_empty_parents example_fs ''/data/06/.p/06.png'' (Some ''/data/'')
                    = (None, fs')"
    by (elim exE conjE)
  then have c2: "fst (rm_file_and_empty_parents example_fs ''/data/06/.p/06.png''
                   (Some ''/data/'')) = None"
    by (simp only: fst_conv)
  have c3: "rm_file_and_empty_parents example_fs ''/data/06/.p/06.png'' (Some ''/data/'')
            = (None, \<lparr>nodes = [([''data''], Dir)], cwd = [], writes = 1\<rparr>)"
    by code_simp
  have c4: "children \<lparr>nodes = [([''data''], Dir)], cwd = [], writes = 1\<rparr> [''data''] = []"
    by code_simp
  from a1 a2 a3 b0 b2 b3 b4 c1 c2 c3 c4 show ?thesis by (intro conjI)
qed

section \<open>Normalised absolute paths\<close>

text \<open>
  What it is for a normalised absolute path to be located inside a base, told on the
  names of the two paths from the root directory down: it goes through the names of the base,
  under the same leading slashes (POSIX keeps a path with exactly two leading slashes
  apart from the others, and \<open>normpath\<close> keeps the two). Every path is inside a base
  that is a root directory.
\<close>

definition inside :: "string \<Rightarrow> string \<Rightarrow> bool" where
  "inside base p \<longleftrightarrow>
     path_names base = [] \<or>
     (initial_slashes p = initial_slashes base \<and> prefix (path_names base) (path_names p))"

definition normal_form :: "nat \<Rightarrow> string list \<Rightarrow> string" where
  "normal_form k names = replicate k sep @ join_on sep names"

lemma split_on_not_Nil: "split_on c s \<noteq> []"
  by (induction s) (auto split: list.splits)

lemma split_on_elems: "x \<in> set (split_on c s) \<Longrightarrow> c \<notin> set x"
proof (induction s arbitrary: x)
  case Nil
  then show ?case by simp
next
  case (Cons a s)
  show ?case
  proof (cases "a = c")
    case True
    with Cons show ?thesis by auto
  next
    case False
    obtain w ws where w: "split_on c s = w # ws"
      using split_on_not_Nil [of c s] by (cases "split_on c s") auto
    with Cons.IH have "c \<notin> set w" and "\<forall>y \<in> set ws. c \<notin> set y" by auto
    with Cons.prems False w show ?thesis by auto
  qed
qed

lemma split_on_append:
  "split_on c (a @ c # t) = split_on c a @ split_on c t"
proof (induction a)
  case Nil
  then show ?case by simp
next
  case (Cons x a)
  obtain w ws where w: "split_on c a = w # ws"
    using split_on_not_Nil [of c a] by (cases "split_on c a") auto
  with Cons show ?case by simp
qed

lemma join_on_Cons: "join_on c (w # names) = w @ concat (map (\<lambda>name. c # name) names)"
  by (induction names arbitrary: w) simp_all

lemma join_on_append:
  "a \<noteq> [] \<Longrightarrow> b \<noteq> [] \<Longrightarrow> join_on c (a @ b) = join_on c a @ c # join_on c b"
proof -
  assume "a \<noteq> []" and "b \<noteq> []"
  then obtain w ws v vs where a: "a = w # ws" and b: "b = v # vs"
    by (cases a; cases b) auto
  have "join_on c ((w # ws) @ v # vs) = join_on c (w # (ws @ v # vs))" by simp
  also have "\<dots> = w @ concat (map (\<lambda>name. c # name) (ws @ v # vs))"
    by (rule join_on_Cons)
  also have "\<dots> = (w @ concat (map (\<lambda>name. c # name) ws))
                   @ c # (v @ concat (map (\<lambda>name. c # name) vs))"
    by simp
  also have "\<dots> = join_on c (w # ws) @ c # join_on c (v # vs)"
    by (simp only: join_on_Cons)
  finally show ?thesis using a b by (simp only:)
qed

lemma split_on_join_on:
  assumes "\<forall>n \<in> set names. sep \<notin> set n"
  shows "split_on sep (join_on sep names) = (if names = [] then [[]] else names)"
proof (cases names)
  case Nil
  then show ?thesis by simp
next
  case (Cons w ws)
  with assms have "split_on sep (w @ concat (map (\<lambda>name. sep # name) ws)) = w # ws"
    by (intro split_on_names) simp
  with Cons show ?thesis by (simp add: join_on_Cons)
qed

lemma split_on_replicate_sep:
  "split_on sep (replicate k sep @ s) = replicate k [] @ split_on sep s"
  by (induction k) simp_all

lemma proper_no_sep: "proper n \<Longrightarrow> sep \<notin> set n"
  by (simp add: proper_def)

lemma proper_not_Nil: "proper n \<Longrightarrow> n \<noteq> []"
  by (simp add: proper_def)

lemma split_on_normal_form:
  assumes "\<forall>n \<in> set names. proper n"
  shows "split_on sep (normal_form k names)
         = replicate k [] @ (if names = [] then [[]] else names)"
proof -
  from assms have "\<forall>n \<in> set names. sep \<notin> set n" by (simp add: proper_no_sep)
  then have "split_on sep (join_on sep names) = (if names = [] then [[]] else names)"
    by (rule split_on_join_on)
  then show ?thesis by (simp only: normal_form_def split_on_replicate_sep)
qed

lemma filter_nonempty_proper:
  "\<forall>n \<in> set names. proper n \<Longrightarrow> filter (\<lambda>name. name \<noteq> []) names = names"
  by (induction names) (simp_all add: proper_not_Nil)

lemma path_names_normal_form:
  assumes "\<forall>n \<in> set names. proper n"
  shows "path_names (normal_form k names) = names"
proof -
  have "filter (\<lambda>name. name \<noteq> []) (replicate k ([] :: string)) = []"
    by (induction k) simp_all
  moreover have "filter (\<lambda>name. name \<noteq> []) (if names = [] then [[]] else names) = names"
    using assms by (simp add: filter_nonempty_proper)
  ultimately show ?thesis
    by (simp only: path_names_def split_on_normal_form [OF assms] filter_append append_Nil)
qed

lemma initial_slashes_one: "c \<noteq> sep \<Longrightarrow> initial_slashes (sep # c # s) = 1"
  by (simp add: initial_slashes_def)

lemma initial_slashes_two: "c \<noteq> sep \<Longrightarrow> initial_slashes (sep # sep # c # s) = 2"
  by (simp add: initial_slashes_def)

lemma initial_slashes_names:
  assumes "k = 1 \<or> k = 2" and "names \<noteq> []" and "\<forall>n \<in> set names. proper n"
  shows "initial_slashes (normal_form k names @ t) = k"
proof -
  from assms(2) obtain n ns where names: "names = n # ns" by (cases names) auto
  with assms(3) have "proper n" by simp
  then obtain c n' where n: "n = c # n'" and c: "c \<noteq> sep"
    by (cases n) (auto simp: proper_def)
  have j: "join_on sep names = c # (n' @ concat (map (\<lambda>name. sep # name) ns))"
    by (simp add: names n join_on_Cons)
  from assms(1) show ?thesis
  proof
    assume "k = 1"
    with c show ?thesis by (simp add: normal_form_def j initial_slashes_one)
  next
    assume "k = 2"
    then have "replicate k sep = [sep, sep]" by (simp add: numeral_2_eq_2)
    with c \<open>k = 2\<close> show ?thesis by (simp add: normal_form_def j initial_slashes_two)
  qed
qed

lemma initial_slashes_root:
  assumes "k = 1 \<or> k = 2"
  shows "initial_slashes (normal_form k []) = k"
  using assms
proof
  assume "k = 1"
  then show ?thesis by (simp add: normal_form_def initial_slashes_def)
next
  assume "k = 2"
  then have "replicate k sep = [sep, sep]" by (simp add: numeral_2_eq_2)
  with \<open>k = 2\<close> show ?thesis by (simp add: normal_form_def initial_slashes_def)
qed

lemma initial_slashes_nf:
  assumes "k = 1 \<or> k = 2" and "\<forall>n \<in> set names. proper n"
  shows "initial_slashes (normal_form k names) = k"
proof (cases "names = []")
  case True
  with assms(1) show ?thesis by (simp add: initial_slashes_root)
next
  case False
  with assms have "initial_slashes (normal_form k names @ []) = k"
    by (intro initial_slashes_names)
  then show ?thesis by simp
qed

section \<open>normpath on absolute paths\<close>

lemma normpath_comps_proper:
  "\<forall>n \<in> set parts. proper n \<Longrightarrow> normpath_comps init acc parts = acc @ parts"
proof (induction parts arbitrary: acc)
  case Nil
  then show ?case by simp
next
  case (Cons part parts)
  then have "proper part" by simp
  then have "part \<noteq> []" and "part \<noteq> ''.''" and "part \<noteq> ''..''"
    by (simp_all add: proper_def)
  moreover from Cons have "normpath_comps init (acc @ [part]) parts = (acc @ [part]) @ parts"
    by simp
  ultimately show ?case by simp
qed

lemma normpath_comps_skip_empty:
  "normpath_comps init acc (replicate k [] @ parts) = normpath_comps init acc parts"
  by (induction k) simp_all

lemma normpath_comps_abs_proper:
  assumes "\<forall>n \<in> set acc. proper n" and "\<forall>x \<in> set parts. sep \<notin> set x"
  shows "\<forall>n \<in> set (normpath_comps True acc parts). proper n"
  using assms
proof (induction parts arbitrary: acc)
  case Nil
  then show ?case by simp
next
  case (Cons part parts)
  from Cons.prems(2) have rest: "\<forall>x \<in> set parts. sep \<notin> set x" and ns: "sep \<notin> set part"
    by simp_all
  show ?case
  proof (cases "part = [] \<or> part = ''.''")
    case True
    from Cons.prems(1) rest have "\<forall>n \<in> set (normpath_comps True acc parts). proper n"
      by (rule Cons.IH)
    with True show ?thesis by auto
  next
    case False
    show ?thesis
    proof (cases "part = ''..''")
      case up: True
      have no_up: "\<not> (acc \<noteq> [] \<and> last acc = ''..'')"
      proof
        assume a: "acc \<noteq> [] \<and> last acc = ''..''"
        then have "last acc \<in> set acc" by (intro last_in_set) simp
        with a have "''..'' \<in> set acc" by simp
        with Cons.prems(1) have "proper ''..''" by blast
        then show False by (simp add: proper_def)
      qed
      have "\<forall>n \<in> set (butlast acc). proper n"
        using Cons.prems(1) by (auto dest: in_set_butlastD)
      then have a: "\<forall>n \<in> set (normpath_comps True (butlast acc) parts). proper n"
        using rest by (rule Cons.IH)
      from Cons.prems(1) rest have b: "\<forall>n \<in> set (normpath_comps True acc parts). proper n"
        by (rule Cons.IH)
      from up no_up a b show ?thesis by (cases "acc = []") simp_all
    next
      case down: False
      with False ns have "proper part" by (simp add: proper_def)
      with Cons.prems(1) have "\<forall>n \<in> set (acc @ [part]). proper n" by simp
      then have "\<forall>n \<in> set (normpath_comps True (acc @ [part]) parts). proper n"
        using rest by (rule Cons.IH)
      with False down show ?thesis by simp
    qed
  qed
qed

lemma isabs_initial_slashes: "isabs p \<Longrightarrow> initial_slashes p = 1 \<or> initial_slashes p = 2"
  by (simp add: isabs_def initial_slashes_def)

lemma normpath_abs:
  assumes "isabs p"
  shows "\<exists>k names. (k = 1 \<or> k = 2) \<and> (\<forall>n \<in> set names. proper n)
           \<and> normpath p = normal_form k names"
proof -
  let ?k = "initial_slashes p"
  let ?names = "normpath_comps True [] (split_on sep p)"
  from assms have k: "?k = 1 \<or> ?k = 2" by (rule isabs_initial_slashes)
  then have k0: "?k \<noteq> 0" by auto
  from assms have ne: "p \<noteq> []" by (auto simp: isabs_def)
  have "\<forall>x \<in> set (split_on sep p). sep \<notin> set x" by (auto dest: split_on_elems)
  then have names: "\<forall>n \<in> set ?names. proper n"
    by (intro normpath_comps_abs_proper) simp_all
  from k have "replicate ?k sep @ join_on sep ?names \<noteq> []" by auto
  with ne k0 have "normpath p = normal_form ?k ?names"
    by (simp add: normpath_def Let_def normal_form_def)
  with k names show ?thesis by blast
qed

lemma normpath_normal_form:
  assumes "k = 1 \<or> k = 2" and "\<forall>n \<in> set names. proper n"
  shows "normpath (normal_form k names) = normal_form k names"
proof -
  let ?p = "normal_form k names"
  from assms have i: "initial_slashes ?p = k" by (rule initial_slashes_nf)
  from assms(1) have k0: "k \<noteq> 0" by auto
  then have ne: "?p \<noteq> []" by (simp add: normal_form_def)
  have "normpath_comps True [] (split_on sep ?p)
        = normpath_comps True [] (if names = [] then [[]] else names)"
    by (simp only: split_on_normal_form [OF assms(2)] normpath_comps_skip_empty)
  also have "\<dots> = names"
    using assms(2) by (cases "names = []") (simp_all add: normpath_comps_proper)
  finally have c: "normpath_comps True [] (split_on sep ?p) = names" .
  from ne k0 have "normpath ?p = replicate k sep @ join_on sep names"
    by (simp add: normpath_def Let_def i c)
  then show ?thesis by (simp only: normal_form_def)
qed

section \<open>safe_join and the names of a path\<close>

lemma dirname_root:
  assumes "k = 1 \<or> k = 2"
  shows "dirname (normal_form k []) = normal_form k []"
  using assms
proof
  assume "k = 1"
  then show ?thesis by (simp add: normal_form_def dirname_def rfind_def)
next
  assume "k = 2"
  then have "replicate k sep = [sep, sep]" by (simp add: numeral_2_eq_2)
  then show ?thesis by (simp add: normal_form_def dirname_def rfind_def)
qed

lemma dirname_below_root:
  assumes "names \<noteq> []" and "\<forall>n \<in> set names. proper n"
  shows "dirname (normal_form k names) \<noteq> normal_form k names"
proof -
  from assms(1) obtain n ns where names: "names = n # ns" by (cases names) auto
  with assms(2) have "proper n" by simp
  then obtain c n' where n: "n = c # n'" and c: "c \<noteq> sep"
    by (cases n) (auto simp: proper_def)
  have "c \<in> set (normal_form k names)"
    by (simp add: normal_form_def names n join_on_Cons)
  with c have "\<exists>x \<in> set (normal_form k names). x \<noteq> sep" by blast
  then have "length (dirname (normal_form k names)) < length (normal_form k names)"
    by (rule dirname_shorter)
  then show ?thesis by auto
qed

lemma path_names_append:
  "path_names (a @ sep # t) = path_names a @ path_names t"
  by (simp only: path_names_def split_on_append filter_append)

text \<open>
  The test of \<open>safe_join\<close> on two normalised absolute paths is the test on names.
\<close>

lemma safe_join_test:
  assumes kb: "kb = 1 \<or> kb = 2" and nb: "\<forall>n \<in> set nb. proper n"
    and kf: "kf = 1 \<or> kf = 2" and nf: "\<forall>n \<in> set nf. proper n"
  shows "prefix (normal_form kb nb @ [sep]) (normal_form kf nf)
           \<or> normal_form kf nf = normal_form kb nb
           \<or> dirname (normal_form kb nb) = normal_form kb nb
         \<longleftrightarrow> inside (normal_form kb nb) (normal_form kf nf)"
proof -
  let ?base = "normal_form kb nb" and ?final = "normal_form kf nf"
  have pb: "path_names ?base = nb" using nb by (rule path_names_normal_form)
  have pf: "path_names ?final = nf" using nf by (rule path_names_normal_form)
  have ib: "initial_slashes ?base = kb" using kb nb by (rule initial_slashes_nf)
  have ifl: "initial_slashes ?final = kf" using kf nf by (rule initial_slashes_nf)
  have ins: "inside ?base ?final \<longleftrightarrow> nb = [] \<or> (kf = kb \<and> prefix nb nf)"
    by (simp only: inside_def pb pf ib ifl)
  show ?thesis
  proof (cases "nb = []")
    case True
    with kb have "dirname ?base = ?base" by (simp only: dirname_root)
    with True ins show ?thesis by (simp only: simp_thms)
  next
    case False
    from False nb have d: "dirname ?base \<noteq> ?base" by (rule dirname_below_root)
    have "prefix (?base @ [sep]) ?final \<or> ?final = ?base \<longleftrightarrow> kf = kb \<and> prefix nb nf"
    proof
      assume "prefix (?base @ [sep]) ?final \<or> ?final = ?base"
      then show "kf = kb \<and> prefix nb nf"
      proof
        assume e: "?final = ?base"
        have "nf = path_names ?final" by (simp only: pf)
        also have "\<dots> = path_names ?base" by (simp only: e)
        also have "\<dots> = nb" by (rule pb)
        finally have n: "nf = nb" .
        have "kf = initial_slashes ?final" by (simp only: ifl)
        also have "\<dots> = initial_slashes ?base" by (simp only: e)
        also have "\<dots> = kb" by (rule ib)
        finally have "kf = kb" .
        with n show ?thesis by simp
      next
        assume "prefix (?base @ [sep]) ?final"
        then obtain t where t: "?final = (?base @ [sep]) @ t" by (auto simp: prefix_def)
        then have f: "?final = ?base @ sep # t" by simp
        have "nf = path_names ?final" by (simp only: pf)
        also have "\<dots> = path_names (?base @ sep # t)" by (simp only: f [symmetric])
        also have "\<dots> = path_names ?base @ path_names t" by (rule path_names_append)
        also have "\<dots> = nb @ path_names t" by (simp only: pb)
        finally have "nf = nb @ path_names t" .
        then have p: "prefix nb nf" by simp
        have "kf = initial_slashes ?final" by (simp only: ifl)
        also have "\<dots> = initial_slashes (?base @ sep # t)" by (simp only: f [symmetric])
        also from kb False nb have "\<dots> = kb" by (rule initial_slashes_names)
        finally have "kf = kb" .
        with p show ?thesis by simp
      qed
    next
      assume a: "kf = kb \<and> prefix nb nf"
      then obtain rest where rest: "nf = nb @ rest" by (auto simp: prefix_def)
      show "prefix (?base @ [sep]) ?final \<or> ?final = ?base"
      proof (cases "rest = []")
        case True
        with a rest have "nf = nb" and "kf = kb" by simp_all
        then have "?final = ?base" by (simp only:)
        then show ?thesis by (rule disjI2)
      next
        case ne: False
        from False ne have "join_on sep (nb @ rest) = join_on sep nb @ sep # join_on sep rest"
          by (rule join_on_append)
        moreover from a rest have "nf = nb @ rest" and "kf = kb" by simp_all
        ultimately have "?final = (?base @ [sep]) @ join_on sep rest"
          by (simp add: normal_form_def)
        then have "prefix (?base @ [sep]) ?final" by (rule prefixI)
        then show ?thesis by (rule disjI1)
      qed
    qed
    with d ins False show ?thesis by (simp only: simp_thms)
  qed
qed

lemma isabs_getcwd: "isabs (getcwd fs)"
  by (simp add: getcwd_def isabs_def)

lemma abspath_normal_form:
  assumes "isabs wd"
  shows "\<exists>k names. (k = 1 \<or> k = 2) \<and> (\<forall>n \<in> set names. proper n)
           \<and> abspath wd q = normal_form k names"
proof -
  have "isabs (if isabs q then q else join wd [q])"
  proof (cases "isabs q")
    case True
    then show ?thesis by simp
  next
    case False
    from assms obtain w where "wd = sep # w" by (cases wd) (auto simp: isabs_def)
    with False show ?thesis by (simp add: join_def join_step_def isabs_def)
  qed
  then show ?thesis unfolding abspath_def by (rule normpath_abs)
qed

section \<open>The claim about path traversal\<close>

text \<open>
  The configured root and the joined path of a name, both as \<open>safe_join\<close> takes them:
  absolute and normalised.
\<close>

definition root_path :: "storage \<Rightarrow> filesystem \<Rightarrow> string" where
  "root_path self fs = abspath (getcwd fs) (location self)"

definition joined_path :: "storage \<Rightarrow> filesystem \<Rightarrow> string \<Rightarrow> string" where
  "joined_path self fs name =
     abspath (getcwd fs) (join (location self) (CAStorage_shard self name))"

lemma CAStorage_path_result:
  "CAStorage_path self fs name =
     (if inside (root_path self fs) (joined_path self fs name)
      then Inr (joined_path self fs name) else Inl SuspiciousFileOperation)"
proof -
  let ?base = "root_path self fs" and ?final = "joined_path self fs name"
  obtain kb nb where kb: "kb = 1 \<or> kb = 2" and nb: "\<forall>n \<in> set nb. proper n"
    and b: "?base = normal_form kb nb"
    unfolding root_path_def using abspath_normal_form [OF isabs_getcwd] by blast
  obtain kf nf where kf: "kf = 1 \<or> kf = 2" and nf: "\<forall>n \<in> set nf. proper n"
    and f: "?final = normal_form kf nf"
    unfolding joined_path_def using abspath_normal_form [OF isabs_getcwd] by blast
  from kb nb kf nf
  have test: "prefix (?base @ [sep]) ?final \<or> ?final = ?base \<or> dirname ?base = ?base
              \<longleftrightarrow> inside ?base ?final"
    unfolding b f by (rule safe_join_test)
  from kf nf have idem: "normpath ?final = ?final"
    unfolding f by (rule normpath_normal_form)
  have sj: "safe_join (getcwd fs) (location self) (CAStorage_shard self name)
            = (if \<not> prefix (?base @ [sep]) ?final \<and> ?final \<noteq> ?base \<and> dirname ?base \<noteq> ?base
               then Inl SuspiciousFileOperation else Inr ?final)"
    by (simp only: safe_join_def Let_def root_path_def joined_path_def)
  show ?thesis
  proof (cases "inside ?base ?final")
    case True
    with test have "\<not> (\<not> prefix (?base @ [sep]) ?final \<and> ?final \<noteq> ?base
                       \<and> dirname ?base \<noteq> ?base)"
      by blast
    with sj have "safe_join (getcwd fs) (location self) (CAStorage_shard self name)
                  = Inr ?final"
      by (simp only: simp_thms if_False)
    then have "CAStorage_path self fs name = Inr (normpath ?final)"
      by (simp add: CAStorage_path_def Let_def)
    with True idem show ?thesis by (simp only: if_True)
  next
    case False
    with test have "\<not> prefix (?base @ [sep]) ?final \<and> ?final \<noteq> ?base
                    \<and> dirname ?base \<noteq> ?base"
      by blast
    with sj have "safe_join (getcwd fs) (location self) (CAStorage_shard self name)
                  = Inl SuspiciousFileOperation"
      by (simp only: simp_thms if_True)
    then have "CAStorage_path self fs name = Inl SuspiciousFileOperation"
      by (simp add: CAStorage_path_def Let_def)
    with False show ?thesis by (simp only: if_False)
  qed
qed

text \<open>
  C5. Path traversal safety. For every name whose shard segments, joined onto the
  configured root, give a path located outside that root, \<open>path\<close> fails with an error
  that is a SecurityViolation (\<open>SuspiciousFileOperation\<close>, a \<open>SuspiciousOperation\<close>);
  whenever \<open>path\<close> returns, the path it returns is inside the root; and for a name whose
  joined path is inside the root it returns the normalised joined path.
\<close>

theorem path_traversal_safety:
  "(\<not> inside (root_path self fs) (joined_path self fs name)
      \<longrightarrow> (\<exists>e. CAStorage_path self fs name = Inl e \<and> security_violation e))
   \<and> (\<forall>p. CAStorage_path self fs name = Inr p \<longrightarrow> inside (root_path self fs) p)
   \<and> (inside (root_path self fs) (joined_path self fs name)
      \<longrightarrow> CAStorage_path self fs name = Inr (joined_path self fs name)
          \<and> normpath (joined_path self fs name) = joined_path self fs name)"
proof (intro conjI allI impI)
  assume "\<not> inside (root_path self fs) (joined_path self fs name)"
  then have "CAStorage_path self fs name = Inl SuspiciousFileOperation"
    by (simp only: CAStorage_path_result if_False)
  moreover have "security_violation SuspiciousFileOperation"
    by (simp add: security_violation_def)
  ultimately show "\<exists>e. CAStorage_path self fs name = Inl e \<and> security_violation e"
    by (intro exI [of _ SuspiciousFileOperation] conjI)
next
  fix p
  assume r: "CAStorage_path self fs name = Inr p"
  show "inside (root_path self fs) p"
  proof (cases "inside (root_path self fs) (joined_path self fs name)")
    case True
    then have "CAStorage_path self fs name = Inr (joined_path self fs name)"
      by (simp only: CAStorage_path_result if_True)
    with r have "p = joined_path self fs name" by simp
    with True show ?thesis by (simp only:)
  next
    case False
    then have "CAStorage_path self fs name = Inl SuspiciousFileOperation"
      by (simp only: CAStorage_path_result if_False)
    with r show ?thesis by simp
  qed
next
  assume "inside (root_path self fs) (joined_path self fs name)"
  then show "CAStorage_path self fs name = Inr (joined_path self fs name)"
    by (simp only: CAStorage_path_result if_True)
next
  obtain kf nf where "kf = 1 \<or> kf = 2" and "\<forall>n \<in> set nf. proper n"
    and f: "joined_path self fs name = normal_form kf nf"
    unfolding joined_path_def using abspath_normal_form [OF isabs_getcwd] by blast
  then show "normpath (joined_path self fs name) = joined_path self fs name"
    unfolding f by (intro normpath_normal_form)
qed

text \<open>
  C5 in the example, with the root \<open>/data\<close>: the name \<open>../../etc/passwd\<close> joins to
  \<open>/etc/passwd\<close>, outside the root, and \<open>path\<close> fails; the stored name \<open>06.png\<close> joins
  to \<open>/data/06/.p/06.png\<close>, inside the root, and \<open>path\<close> returns it.
\<close>

theorem path_traversal_safety_witness:
  "root_path example_storage empty_fs = ''/data''
   \<and> joined_path example_storage empty_fs ''../../etc/passwd'' = ''/etc/passwd''
   \<and> \<not> inside ''/data'' ''/etc/passwd''
   \<and> CAStorage_path example_storage empty_fs ''../../etc/passwd'' = Inl SuspiciousFileOperation
   \<and> security_violation SuspiciousFileOperation
   \<and> joined_path example_storage empty_fs ''06.png'' = ''/data/06/.p/06.png''
   \<and> inside ''/data'' ''/data/06/.p/06.png''
   \<and> CAStorage_path example_storage empty_fs ''06.png'' = Inr ''/data/06/.p/06.png''"
proof -
  have r: "root_path example_storage empty_fs = ''/data''" by code_simp
  have j1: "joined_path example_storage empty_fs ''../../etc/passwd'' = ''/etc/passwd''"
    by code_simp
  have o: "\<not> inside ''/data'' ''/etc/passwd''" by code_simp
  have j2: "joined_path example_storage empty_fs ''06.png'' = ''/data/06/.p/06.png''"
    by code_simp
  have i: "inside ''/data'' ''/data/06/.p/06.png''" by code_simp
  note t1 = path_traversal_safety [of example_storage empty_fs "''../../etc/passwd''",
      THEN conjunct1, THEN mp]
  have "\<not> inside (root_path example_storage empty_fs)
               (joined_path example_storage empty_fs ''../../etc/passwd'')"
    unfolding r j1 by (rule o)
  then have "\<exists>e. CAStorage_path example_storage empty_fs ''../../etc/passwd'' = Inl e
                  \<and> security_violation e"
    by (rule t1)
  moreover have e1: "CAStorage_path example_storage empty_fs ''../../etc/passwd''
                     = Inl SuspiciousFileOperation"
    by code_simp
  ultimately have sv: "security_violation SuspiciousFileOperation" by auto
  note t2 = path_traversal_safety [of example_storage empty_fs "''06.png''",
      THEN conjunct2, THEN conjunct2, THEN mp, THEN conjunct1]
  have "inside (root_path example_storage empty_fs)
          (joined_path example_storage empty_fs ''06.png'')"
    unfolding r j2 by (rule i)
  then have "CAStorage_path example_storage empty_fs ''06.png''
             = Inr (joined_path example_storage empty_fs ''06.png'')"
    by (rule t2)
  then have e2: "CAStorage_path example_storage empty_fs ''06.png'' = Inr ''/data/06/.p/06.png''"
    by (simp only: j2)
  from r j1 o e1 sv j2 i e2 show ?thesis by (intro conjI)
qed

end
